theory Spec2Isabelle
  imports Main "HOL-Library.Word" "HOL-Library.Sublist"
begin

unbundle bit_operations_syntax

section \<open>unwpreg: extraction of wpreg firmware archives\<close>

text \<open>
  A shallow embedding of \<^verbatim>\<open>unwpreg.c\<close>. The archive buffer is a list of bytes
  (\<^typ>\<open>char\<close> is an 8-bit byte), a pointer into it is the list of the bytes from the
  pointer to the end of the buffer, and \<^verbatim>\<open>assert\<close> is a branch that returns a
  failure: the process is gone, the file system stays as it was at that moment.
  The integer types are those of LP64 Linux: \<^verbatim>\<open>size_t\<close> and \<^verbatim>\<open>unsigned long\<close> are
  64 bits wide, \<^verbatim>\<open>mode_t\<close> 32 bits, \<^verbatim>\<open>time_t\<close> a 64-bit \<^verbatim>\<open>long\<close> (kept as the word
  of its bits).
\<close>

subsection \<open>Machine types and failures\<close>

type_synonym size_t = "64 word"
type_synonym mode_t = "32 word"
type_synonym time_t = "64 word"

text \<open>
  One constructor per \<^verbatim>\<open>assert\<close> of the source that can fail (the number is the source
  line), and two for behaviour the C standard leaves undefined: a read past the end of
  the buffer, and the read of \<^verbatim>\<open>st.st_mode\<close> at line 77 after a \<^verbatim>\<open>stat\<close> that failed with
  an errno other than \<^verbatim>\<open>ENOENT\<close>. \<^verbatim>\<open>malloc\<close> (line 109) is taken to succeed.
\<close>

datatype failure =
    TruncatedHeader       \<comment> \<open>148: \<^verbatim>\<open>assert(count >= sizeof(struct fwpart))\<close>\<close>
  | TruncatedPayload      \<comment> \<open>164: \<^verbatim>\<open>assert(count >= sizeof(struct fwpart) + size)\<close>\<close>
  | EmptyPath             \<comment> \<open>68: \<^verbatim>\<open>assert(path[0] != '\0')\<close>\<close>
  | AbsolutePath          \<comment> \<open>69: \<^verbatim>\<open>assert(path[0] != '/')\<close>\<close>
  | DotPath               \<comment> \<open>70: \<^verbatim>\<open>assert(strcmp(path, "."))\<close>\<close>
  | DotDotPath            \<comment> \<open>71: \<^verbatim>\<open>assert(strcmp(path, ".."))\<close>\<close>
  | MkdirFailed           \<comment> \<open>75: \<^verbatim>\<open>assert(ret == 0)\<close> after \<^verbatim>\<open>mkdir\<close>\<close>
  | DirectoryConflict     \<comment> \<open>77: \<^verbatim>\<open>assert(S_ISDIR(st.st_mode))\<close>\<close>
  | ChdirFailed           \<comment> \<open>60: \<^verbatim>\<open>assert(ret == 0)\<close> after \<^verbatim>\<open>chdir\<close>\<close>
  | OpenFailed            \<comment> \<open>93: \<^verbatim>\<open>assert(fd >= 0)\<close>\<close>
  | FopenFailed           \<comment> \<open>127: \<^verbatim>\<open>assert(f != NULL)\<close>\<close>
  | SizeLeft              \<comment> \<open>179: \<^verbatim>\<open>assert(size == 0)\<close>\<close>
  | OutOfBounds           \<comment> \<open>a read past the end of the buffer\<close>
  | IndeterminateStat     \<comment> \<open>77 reached with \<^verbatim>\<open>st\<close> never written\<close>

subsection \<open>The C library: strings and \<^verbatim>\<open>strtoul\<close>\<close>

definition NUL :: char where
  "NUL = CHR 0x00"

text \<open>
  A C string at a pointer: the bytes before the first NUL. With no NUL before the end
  of the buffer the read runs off the buffer.
\<close>

definition c_str :: "string \<Rightarrow> failure + string" where
  "c_str mem = (if NUL \<in> set mem then Inr (takeWhile (\<lambda>c. c \<noteq> NUL) mem) else Inl OutOfBounds)"

definition isspace :: "char \<Rightarrow> bool" where
  "isspace c = (c = CHR '' '' \<or> c = CHR 0x09 \<or> c = CHR 0x0A \<or> c = CHR 0x0B
                \<or> c = CHR 0x0C \<or> c = CHR 0x0D)"

text \<open>The value of a digit or letter, as \<^verbatim>\<open>strtoul\<close> reads it (\<open>a\<close> and \<open>A\<close> are 10).\<close>

definition digit_of :: "char \<Rightarrow> nat option" where
  "digit_of c =
     (let n = (of_char c :: nat) in
      if 48 \<le> n \<and> n \<le> 57 then Some (n - 48)
      else if 97 \<le> n \<and> n \<le> 122 then Some (n - 87)
      else if 65 \<le> n \<and> n \<le> 90 then Some (n - 55)
      else None)"

fun skip_space :: "string \<Rightarrow> failure + string" where
  "skip_space [] = Inl OutOfBounds"
| "skip_space (c # cs) = (if isspace c then skip_space cs else Inr (c # cs))"

text \<open>
  The digit loop: it stops at the first byte that is no digit of the base, and the
  value is kept unbounded until the end.
\<close>

fun scan_digits :: "nat \<Rightarrow> nat \<Rightarrow> string \<Rightarrow> failure + nat" where
  "scan_digits b acc [] = Inl OutOfBounds"
| "scan_digits b acc (c # cs) =
     (case digit_of c of
        None \<Rightarrow> Inr acc
      | Some d \<Rightarrow> if d < b then scan_digits b (acc * b + d) cs else Inr acc)"

definition ULONG_MAX :: nat where
  "ULONG_MAX = 2 ^ 64 - 1"

text \<open>
  The result of \<^verbatim>\<open>strtoul\<close>: \<^verbatim>\<open>ULONG_MAX\<close> when the value does not fit, the negation in
  the unsigned type after a minus sign.
\<close>

definition to_ulong :: "bool \<Rightarrow> nat \<Rightarrow> size_t" where
  "to_ulong neg v =
     (if ULONG_MAX < v then of_nat ULONG_MAX else if neg then - of_nat v else of_nat v)"

text \<open>Base 0: \<open>0x\<close> or \<open>0X\<close> selects base 16, another leading \<open>0\<close> base 8, anything else base 10.\<close>

fun scan_number :: "bool \<Rightarrow> string \<Rightarrow> failure + size_t" where
  "scan_number neg [] = Inl OutOfBounds"
| "scan_number neg (c # cs) =
     (if c = CHR ''0'' then
        (case cs of
           [] \<Rightarrow> Inl OutOfBounds
         | x # ds \<Rightarrow>
             if x = CHR ''x'' \<or> x = CHR ''X''
             then map_sum id (to_ulong neg) (scan_digits 16 0 ds)
             else map_sum id (to_ulong neg) (scan_digits 8 0 (c # cs)))
      else map_sum id (to_ulong neg) (scan_digits 10 0 (c # cs)))"

text \<open>\<^verbatim>\<open>strtoul(p, NULL, 0)\<close>: white space, an optional sign, then the number.\<close>

definition strtoul :: "string \<Rightarrow> failure + size_t" where
  "strtoul mem =
     (case skip_space mem of
        Inl e \<Rightarrow> Inl e
      | Inr s \<Rightarrow>
          if hd s = CHR ''-'' then scan_number True (tl s)
          else if hd s = CHR ''+'' then scan_number False (tl s)
          else scan_number False s)"

subsection \<open>\<^verbatim>\<open>struct fwpart\<close>\<close>

text \<open>
  The header has no padding (every member is a \<^verbatim>\<open>char\<close> array), so the offset of a
  member is the sum of the widths before it, and \<^verbatim>\<open>payload\<close> starts at
  \<^verbatim>\<open>sizeof(struct fwpart)\<close>.
\<close>

definition name_width :: nat where "name_width = 0x74"
definition size_width :: nat where "size_width = 0x0C"
definition hash_width :: nat where "hash_width = 0x10"
definition mode_width :: nat where "mode_width = 0x0C"
definition time_width :: nat where "time_width = 0x0C"
definition rsvd_width :: nat where "rsvd_width = 0x0C"
definition path_width :: nat where "path_width = 0x3C"
definition vers_width :: nat where "vers_width = 0x10"

definition off_name :: nat where "off_name = 0"
definition off_size :: nat where "off_size = off_name + name_width"
definition off_hash :: nat where "off_hash = off_size + size_width"
definition off_mode :: nat where "off_mode = off_hash + hash_width"
definition off_time :: nat where "off_time = off_mode + mode_width"
definition off_rsvd :: nat where "off_rsvd = off_time + time_width"
definition off_path :: nat where "off_path = off_rsvd + rsvd_width"
definition off_vers :: nat where "off_vers = off_path + path_width"
definition sizeof_fwpart :: nat where "sizeof_fwpart = off_vers + vers_width"

text \<open>What \<^verbatim>\<open>process_buf\<close> reads of a header: its locals and the strings it prints.\<close>

record fwpart =
  fw_name :: string
  fw_size :: size_t
  fw_mode :: mode_t
  fw_time :: time_t
  fw_rsvd :: size_t
  fw_path :: string
  fw_vers :: string

text \<open>
  Lines 150 to 161, in the order of the source: the four \<^verbatim>\<open>strtoul\<close> calls, each on the
  pointer to its member, then the three strings \<^verbatim>\<open>printf\<close> reads with \<^verbatim>\<open>%s\<close>. No read is
  bounded by the width of the member. \<^verbatim>\<open>mode\<close> keeps the low 32 bits of the result.
\<close>

definition parse_fields :: "string \<Rightarrow> failure + fwpart" where
  "parse_fields mem =
     (case strtoul (drop off_size mem) of Inl e \<Rightarrow> Inl e | Inr sz \<Rightarrow>
      case strtoul (drop off_mode mem) of Inl e \<Rightarrow> Inl e | Inr mode \<Rightarrow>
      case strtoul (drop off_time mem) of Inl e \<Rightarrow> Inl e | Inr time \<Rightarrow>
      case strtoul (drop off_rsvd mem) of Inl e \<Rightarrow> Inl e | Inr rsvd \<Rightarrow>
      case c_str (drop off_name mem) of Inl e \<Rightarrow> Inl e | Inr name \<Rightarrow>
      case c_str (drop off_path mem) of Inl e \<Rightarrow> Inl e | Inr path \<Rightarrow>
      case c_str (drop off_vers mem) of Inl e \<Rightarrow> Inl e | Inr vers \<Rightarrow>
        Inr \<lparr>fw_name = name, fw_size = sz, fw_mode = ucast mode, fw_time = time,
             fw_rsvd = rsvd, fw_path = path, fw_vers = vers\<rparr>)"

subsection \<open>The file system\<close>

text \<open>
  The part of POSIX the program uses. A file system is a tree of directories and
  regular files, addressed by the list of names from the root; the root is always a
  directory. There are no symbolic links and no permission checks. Two parameters
  stand for what the operating system can refuse: \<open>refuse\<close> tells where a new entry
  cannot be created, and \<open>free_space\<close> is the number of bytes that can still be written.
  \<open>stdout\<close> collects what \<^verbatim>\<open>process_buf\<close> prints, one entry per record.
\<close>

datatype kind = Directory | Regular

record inode =
  i_kind :: kind
  i_perm :: mode_t
  i_data :: string
  i_atime :: time_t
  i_mtime :: time_t

record fs =
  nodes :: "string list \<Rightarrow> inode option"
  cwd :: "string list"
  umask :: mode_t
  now :: time_t
  refuse :: "string list \<Rightarrow> bool"
  free_space :: nat
  stdout :: "fwpart list"

datatype errno = ENOENT | ENOTDIR | EEXIST | EISDIR | EACCES | ENAMETOOLONG

definition NAME_MAX :: nat where
  "NAME_MAX = 255"

definition root_inode :: inode where
  "root_inode = \<lparr>i_kind = Directory, i_perm = 493, i_data = [], i_atime = 0, i_mtime = 0\<rparr>"

definition lookup :: "fs \<Rightarrow> string list \<Rightarrow> inode option" where
  "lookup s p = (if p = [] then Some root_inode else nodes s p)"

definition is_dir :: "fs \<Rightarrow> string list \<Rightarrow> bool" where
  "is_dir s p = (case lookup s p of None \<Rightarrow> False | Some i \<Rightarrow> i_kind i = Directory)"

text \<open>The components of a path name, empty ones (between two slashes) included.\<close>

fun split_slash :: "string \<Rightarrow> string list" where
  "split_slash [] = [[]]"
| "split_slash (c # cs) =
     (if c = CHR ''/'' then [] # split_slash cs
      else (case split_slash cs of [] \<Rightarrow> [[c]] | x # xs \<Rightarrow> (c # x) # xs))"

text \<open>
  Path resolution: every component is looked up in a directory that exists; an empty
  component and \<open>.\<close> stay, \<open>..\<close> goes up (the root is its own parent). The result is
  the place the path names, which may hold nothing yet.
\<close>

fun walk :: "fs \<Rightarrow> string list \<Rightarrow> string list \<Rightarrow> errno + string list" where
  "walk s cur [] = Inr cur"
| "walk s cur (c # cs) =
     (if NAME_MAX < length c then Inl ENAMETOOLONG
      else case lookup s cur of
        None \<Rightarrow> Inl ENOENT
      | Some i \<Rightarrow>
          if i_kind i = Regular then Inl ENOTDIR
          else if c = [] \<or> c = ''.'' then walk s cur cs
          else if c = ''..'' then walk s (butlast cur) cs
          else walk s (cur @ [c]) cs)"

definition start_dir :: "fs \<Rightarrow> string \<Rightarrow> string list" where
  "start_dir s p = (if hd p = CHR ''/'' then [] else cwd s)"

definition resolve :: "fs \<Rightarrow> string \<Rightarrow> errno + string list" where
  "resolve s p = (if p = [] then Inl ENOENT else walk s (start_dir s p) (split_slash p))"

definition sys_stat :: "fs \<Rightarrow> string \<Rightarrow> errno + inode" where
  "sys_stat s p =
     (case resolve s p of
        Inl e \<Rightarrow> Inl e
      | Inr loc \<Rightarrow> (case lookup s loc of None \<Rightarrow> Inl ENOENT | Some i \<Rightarrow> Inr i))"

definition new_inode :: "kind \<Rightarrow> mode_t \<Rightarrow> fs \<Rightarrow> inode" where
  "new_inode k mode s =
     \<lparr>i_kind = k, i_perm = mode AND NOT (umask s), i_data = [], i_atime = now s, i_mtime = now s\<rparr>"

text \<open>Trailing slashes do not count for \<^verbatim>\<open>mkdir\<close>.\<close>

definition strip_trailing :: "string \<Rightarrow> string" where
  "strip_trailing p = rev (dropWhile (\<lambda>c. c = CHR ''/'') (rev p))"

definition sys_mkdir :: "fs \<Rightarrow> string \<Rightarrow> mode_t \<Rightarrow> errno + fs" where
  "sys_mkdir s p mode =
     (if p = [] then Inl ENOENT
      else if strip_trailing p = [] then Inl EEXIST
      else
        let comps = split_slash (strip_trailing p); name = last comps in
        case walk s (start_dir s p) (butlast comps) of
          Inl e \<Rightarrow> Inl e
        | Inr parent \<Rightarrow>
            if NAME_MAX < length name then Inl ENAMETOOLONG
            else (case lookup s parent of
              None \<Rightarrow> Inl ENOENT
            | Some d \<Rightarrow>
                if i_kind d = Regular then Inl ENOTDIR
                else if name = ''.'' \<or> name = ''..'' then Inl EEXIST
                else if lookup s (parent @ [name]) \<noteq> None then Inl EEXIST
                else if refuse s (parent @ [name]) then Inl EACCES
                else Inr (s\<lparr>nodes := (nodes s)(parent @ [name] \<mapsto>
                              new_inode Directory (mode AND 511) s)\<rparr>)))"

definition sys_chdir :: "fs \<Rightarrow> string \<Rightarrow> errno + fs" where
  "sys_chdir s p =
     (case resolve s p of
        Inl e \<Rightarrow> Inl e
      | Inr loc \<Rightarrow>
          (case lookup s loc of
             None \<Rightarrow> Inl ENOENT
           | Some i \<Rightarrow> if i_kind i = Regular then Inl ENOTDIR else Inr (s\<lparr>cwd := loc\<rparr>)))"

text \<open>
  \<^verbatim>\<open>open(path, O_RDONLY)\<close> of a directory. A descriptor of a directory is the place of
  the directory: nothing here renames or removes one.
\<close>

definition sys_open_dir :: "fs \<Rightarrow> string \<Rightarrow> errno + string list" where
  "sys_open_dir s p =
     (case resolve s p of
        Inl e \<Rightarrow> Inl e
      | Inr loc \<Rightarrow>
          (case lookup s loc of
             None \<Rightarrow> Inl ENOENT
           | Some i \<Rightarrow> if i_kind i = Regular then Inl ENOTDIR else Inr loc))"

text \<open>\<^verbatim>\<open>fchdir(fd)\<close>; the source ignores its result, so only the new state is returned.\<close>

definition sys_fchdir :: "fs \<Rightarrow> string list \<Rightarrow> fs" where
  "sys_fchdir s fd = (if is_dir s fd then s\<lparr>cwd := fd\<rparr> else s)"

text \<open>
  \<^verbatim>\<open>fopen(path, "w")\<close>: the file is created with mode \<open>0666\<close> (438) under the mask, or
  truncated when it exists. The stream is the place of the file.
\<close>

definition sys_fopen_w :: "fs \<Rightarrow> string \<Rightarrow> errno + string list \<times> fs" where
  "sys_fopen_w s p =
     (if p = [] then Inl ENOENT
      else
        let comps = split_slash p; name = last comps in
        case walk s (start_dir s p) (butlast comps) of
          Inl e \<Rightarrow> Inl e
        | Inr parent \<Rightarrow>
            if NAME_MAX < length name then Inl ENAMETOOLONG
            else (case lookup s parent of
              None \<Rightarrow> Inl ENOENT
            | Some d \<Rightarrow>
                if i_kind d = Regular then Inl ENOTDIR
                else if name = [] \<or> name = ''.'' \<or> name = ''..'' then Inl EISDIR
                else (case lookup s (parent @ [name]) of
                  None \<Rightarrow>
                    if refuse s (parent @ [name]) then Inl EACCES
                    else Inr (parent @ [name],
                              s\<lparr>nodes := (nodes s)(parent @ [name] \<mapsto> new_inode Regular 438 s)\<rparr>)
                | Some i \<Rightarrow>
                    if i_kind i = Directory then Inl EISDIR
                    else Inr (parent @ [name],
                              s\<lparr>nodes := (nodes s)(parent @ [name] \<mapsto>
                                   i\<lparr>i_data := [], i_mtime := now s\<rparr>),
                                free_space := free_space s + length (i_data i)\<rparr>))))"

text \<open>
  \<^verbatim>\<open>fwrite(buf, size, 1, f)\<close> followed by \<^verbatim>\<open>fclose(f)\<close>: the bytes that still fit are
  written. The source ignores both results, so only the new state is returned.
\<close>

definition sys_write :: "fs \<Rightarrow> string list \<Rightarrow> string \<Rightarrow> fs" where
  "sys_write s f data =
     (case lookup s f of
        None \<Rightarrow> s
      | Some i \<Rightarrow>
          let n = min (length data) (free_space s) in
          s\<lparr>nodes := (nodes s)(f \<mapsto> i\<lparr>i_data := i_data i @ take n data, i_mtime := now s\<rparr>),
            free_space := free_space s - n\<rparr>)"

text \<open>\<^verbatim>\<open>chmod\<close> sets the twelve permission bits (\<open>07777\<close> is 4095); its result is ignored.\<close>

definition sys_chmod :: "fs \<Rightarrow> string \<Rightarrow> mode_t \<Rightarrow> fs" where
  "sys_chmod s p mode =
     (case resolve s p of
        Inl e \<Rightarrow> s
      | Inr loc \<Rightarrow>
          (case lookup s loc of
             None \<Rightarrow> s
           | Some i \<Rightarrow> s\<lparr>nodes := (nodes s)(loc \<mapsto> i\<lparr>i_perm := mode AND 4095\<rparr>)\<rparr>))"

text \<open>\<^verbatim>\<open>utime\<close> with the two times of \<^verbatim>\<open>struct utimbuf\<close>; its result is ignored.\<close>

definition sys_utime :: "fs \<Rightarrow> string \<Rightarrow> time_t \<Rightarrow> time_t \<Rightarrow> fs" where
  "sys_utime s p actime modtime =
     (case resolve s p of
        Inl e \<Rightarrow> s
      | Inr loc \<Rightarrow>
          (case lookup s loc of
             None \<Rightarrow> s
           | Some i \<Rightarrow> s\<lparr>nodes := (nodes s)(loc \<mapsto> i\<lparr>i_atime := actime, i_mtime := modtime\<rparr>)\<rparr>))"

text \<open>
  \<^verbatim>\<open>dirname\<close> of \<^verbatim>\<open>libgen.h\<close>: trailing slashes go, then the last component and the
  slashes before it; a path with no slash gives \<open>.\<close>, one of slashes only gives \<open>/\<close>.
\<close>

definition dirname :: "string \<Rightarrow> string" where
  "dirname p =
     (let p1 = strip_trailing p in
      if p = [] then ''.''
      else if p1 = [] then ''/''
      else if CHR ''/'' \<notin> set p1 then ''.''
      else
        let p2 = strip_trailing (rev (dropWhile (\<lambda>c. c \<noteq> CHR ''/'') (rev p1))) in
        if p2 = [] then ''/'' else p2)"

subsection \<open>The program\<close>

text \<open>Every function takes the file system last and returns it with its result.\<close>

definition u_chdir :: "string \<Rightarrow> fs \<Rightarrow> (failure + unit) \<times> fs" where
  "u_chdir path s =
     (case sys_chdir s path of
        Inl e \<Rightarrow> (Inl ChdirFailed, s)
      | Inr s' \<Rightarrow> (Inr (), s'))"

definition u_mkdir :: "string \<Rightarrow> mode_t \<Rightarrow> fs \<Rightarrow> (failure + unit) \<times> fs" where
  "u_mkdir path mode s =
     (if path = [] then (Inl EmptyPath, s)
      else if hd path = CHR ''/'' then (Inl AbsolutePath, s)
      else if path = ''.'' then (Inl DotPath, s)
      else if path = ''..'' then (Inl DotDotPath, s)
      else
        (case sys_stat s path of
           Inl e \<Rightarrow>
             if e = ENOENT then
               (case sys_mkdir s path mode of
                  Inl e' \<Rightarrow> (Inl MkdirFailed, s)
                | Inr s' \<Rightarrow> (Inr (), s'))
             else (Inl IndeterminateStat, s)
         | Inr st \<Rightarrow>
             if i_kind st = Directory then (Inr (), s) else (Inl DirectoryConflict, s)))"

text \<open>
  \<^verbatim>\<open>strchr\<close> finds the first slash; the loop overwrites it and the slashes after it
  with NUL, so \<^verbatim>\<open>path\<close> is now its first component and \<^verbatim>\<open>s\<close> points behind the slashes
  (\<open>rest = []\<close> stands for \<^verbatim>\<open>s == NULL\<close>: there was no slash).
\<close>

function u_mkdir_p :: "string \<Rightarrow> mode_t \<Rightarrow> fs \<Rightarrow> (failure + unit) \<times> fs" where
  "u_mkdir_p path mode s =
     (let comp = takeWhile (\<lambda>c. c \<noteq> CHR ''/'') path;
          rest = dropWhile (\<lambda>c. c \<noteq> CHR ''/'') path
      in case u_mkdir comp mode s of
           (Inl e, s1) \<Rightarrow> (Inl e, s1)
         | (Inr u, s1) \<Rightarrow>
             if rest = [] then (Inr (), s1)
             else
               (case sys_open_dir s1 ''.'' of
                  Inl e \<Rightarrow> (Inl OpenFailed, s1)
                | Inr fd \<Rightarrow>
                    (case u_chdir comp s1 of
                       (Inl e, s2) \<Rightarrow> (Inl e, s2)
                     | (Inr u, s2) \<Rightarrow>
                         (case u_mkdir_p (dropWhile (\<lambda>c. c = CHR ''/'') rest) mode s2 of
                            (Inl e, s3) \<Rightarrow> (Inl e, s3)
                          | (Inr u, s3) \<Rightarrow> (Inr (), sys_fchdir s3 fd)))))"
  by pat_completeness auto
termination
proof (relation "measure (\<lambda>(path, mode, s). length path)")
  show "wf (measure (\<lambda>(path, mode, s). length path))"
    by simp
next
  fix path :: string and rest :: string
  assume r: "rest = dropWhile (\<lambda>c. c \<noteq> CHR ''/'') path" and ne: "rest \<noteq> []"
  from ne have "hd rest = CHR ''/''"
    unfolding r using hd_dropWhile [of "\<lambda>c. c \<noteq> CHR ''/''" path] by simp
  with ne have "length (dropWhile (\<lambda>c. c = CHR ''/'') rest) < length rest"
    by (cases rest) (simp_all add: less_Suc_eq_le length_dropWhile_le)
  moreover have "length rest \<le> length path"
    unfolding r by (rule length_dropWhile_le)
  ultimately have "length (dropWhile (\<lambda>c. c = CHR ''/'') rest) < length path"
    by simp
  then show "\<And>mode x y s x2 xa ya xb.
       ((dropWhile (\<lambda>c. c = CHR ''/'') rest, mode, ya), path, mode, s)
       \<in> measure (\<lambda>(path, mode, s). length path)"
    by simp
qed

declare u_mkdir_p.simps [simp del]

definition mkdir_p_fn :: "string \<Rightarrow> mode_t \<Rightarrow> fs \<Rightarrow> (failure + unit) \<times> fs" where
  "mkdir_p_fn path mode s = u_mkdir_p (dirname path) mode s"

text \<open>
  \<^verbatim>\<open>save_buf\<close>: \<open>0777\<close> is 511. \<^verbatim>\<open>fwrite\<close> reads \<open>size\<close> bytes at \<open>buf\<close>; when the buffer
  ends before, the read is out of bounds.
\<close>

definition save_buf ::
    "string \<Rightarrow> string \<Rightarrow> size_t \<Rightarrow> mode_t \<Rightarrow> time_t \<Rightarrow> fs \<Rightarrow> (failure + unit) \<times> fs" where
  "save_buf path0 buf sz mode time s =
     (let path = dropWhile (\<lambda>c. c = CHR ''/'') path0 in
      case mkdir_p_fn path 511 s of
        (Inl e, s1) \<Rightarrow> (Inl e, s1)
      | (Inr u, s1) \<Rightarrow>
          (case sys_fopen_w s1 path of
             Inl e \<Rightarrow> (Inl FopenFailed, s1)
           | Inr (f, s2) \<Rightarrow>
               if length buf < unat sz then (Inl OutOfBounds, s2)
               else
                 let s3 = sys_write s2 f (take (unat sz) buf);
                     s4 = sys_chmod s3 path mode;
                     s5 = sys_utime s4 path time time
                 in (Inr (), s5)))"

text \<open>
  \<^verbatim>\<open>process_buf(buf, count)\<close>: the buffer is the \<open>count\<close> bytes at \<open>buf\<close>. The sum
  \<^verbatim>\<open>sizeof(struct fwpart) + size\<close> is computed in \<^verbatim>\<open>size_t\<close> and wraps around.
\<close>

definition process_buf :: "string \<Rightarrow> size_t \<Rightarrow> fs \<Rightarrow> (failure + size_t) \<times> fs" where
  "process_buf buf count s =
     (let mem = take (unat count) buf in
      if count < of_nat sizeof_fwpart then (Inl TruncatedHeader, s)
      else
        (case parse_fields mem of
           Inl e \<Rightarrow> (Inl e, s)
         | Inr pt \<Rightarrow>
             let s1 = s\<lparr>stdout := stdout s @ [pt]\<rparr> in
             if count < of_nat sizeof_fwpart + fw_size pt then (Inl TruncatedPayload, s1)
             else
               (case save_buf (fw_path pt) (drop sizeof_fwpart mem) (fw_size pt)
                       (fw_mode pt) (fw_time pt) s1 of
                  (Inl e, s2) \<Rightarrow> (Inl e, s2)
                | (Inr u, s2) \<Rightarrow> (Inr (of_nat sizeof_fwpart + fw_size pt), s2))))"

subsection \<open>The loop over the records\<close>

lemma sizeof_fwpart_256: "sizeof_fwpart = 256"
  by (simp add: sizeof_fwpart_def off_vers_def off_path_def off_rsvd_def off_time_def
      off_mode_def off_hash_def off_size_def off_name_def name_width_def size_width_def
      hash_width_def mode_width_def time_width_def rsvd_width_def path_width_def vers_width_def)

lemma save_buf_Inr_length:
  "save_buf path0 buf sz mode time s = (Inr u, s') \<Longrightarrow> unat sz \<le> length buf"
  unfolding save_buf_def Let_def
  by (simp split: prod.splits sum.splits if_splits)

lemma process_buf_Inr:
  assumes ok: "process_buf buf count s = (Inr len, s')"
  shows "\<exists>pt. parse_fields (take (unat count) buf) = Inr pt
           \<and> len = of_nat sizeof_fwpart + fw_size pt
           \<and> sizeof_fwpart + unat (fw_size pt) \<le> unat count
           \<and> save_buf (fw_path pt) (drop sizeof_fwpart (take (unat count) buf)) (fw_size pt)
                (fw_mode pt) (fw_time pt) (s\<lparr>stdout := stdout s @ [pt]\<rparr>) = (Inr (), s')"
proof -
  have hdr: "\<not> count < of_nat sizeof_fwpart"
    using ok unfolding process_buf_def Let_def by (simp split: if_splits)
  obtain pt :: fwpart where pt: "parse_fields (take (unat count) buf) = Inr pt"
    using ok hdr unfolding process_buf_def Let_def
    by (cases "parse_fields (take (unat count) buf)") simp_all
  have pl: "\<not> count < of_nat sizeof_fwpart + fw_size pt"
    using ok hdr pt unfolding process_buf_def Let_def by (simp split: if_splits)
  obtain r s2 where sv0: "save_buf (fw_path pt) (drop sizeof_fwpart (take (unat count) buf))
      (fw_size pt) (fw_mode pt) (fw_time pt) (s\<lparr>stdout := stdout s @ [pt]\<rparr>) = (r, s2)"
    by (meson surj_pair)
  from ok hdr pt pl sv0 have r: "r = Inr ()" and s2: "s2 = s'"
    and len: "len = of_nat sizeof_fwpart + fw_size pt"
    unfolding process_buf_def Let_def by (cases r; simp)+
  from hdr have c256: "256 \<le> unat count"
    by (simp add: sizeof_fwpart_256 word_less_nat_alt not_less)
  from save_buf_Inr_length [OF sv0 [unfolded r]]
  have "unat (fw_size pt) \<le> min (length buf) (unat count) - sizeof_fwpart"
    by simp
  with c256 have "sizeof_fwpart + unat (fw_size pt) \<le> unat count"
    by (simp add: sizeof_fwpart_256)
  with pt len sv0 r s2 show ?thesis by blast
qed

lemma process_buf_Inr_unat:
  assumes "process_buf buf count s = (Inr len, s')"
  shows "0 < unat len \<and> unat len \<le> unat count"
proof -
  from process_buf_Inr [OF assms] obtain pt :: fwpart where
    len: "len = of_nat sizeof_fwpart + fw_size pt" and
    le: "sizeof_fwpart + unat (fw_size pt) \<le> unat count"
    by blast
  have "unat count < 2 ^ LENGTH(64)" by (rule unsigned_less)
  with le have lt: "256 + unat (fw_size pt) < 2 ^ LENGTH(64)"
    unfolding sizeof_fwpart_256 by linarith
  have "unat (256 + fw_size pt) = unat (256 :: 64 word) + unat (fw_size pt)"
    by (rule unat_add_lem [THEN iffD1]) (use lt in simp)
  then have "unat len = 256 + unat (fw_size pt)"
    unfolding len sizeof_fwpart_256 by simp
  with le show ?thesis by (simp add: sizeof_fwpart_256)
qed

text \<open>
  The loop of \<^verbatim>\<open>process_mem\<close>, returning \<^verbatim>\<open>mem\<close> and \<^verbatim>\<open>size\<close> as they are when it
  is left. It ends because a call of \<^verbatim>\<open>process_buf\<close> that returns has read its payload
  inside the buffer, so the length it returns is at least the header and at most
  \<open>size\<close>.
\<close>

function process_mem_loop :: "string \<Rightarrow> size_t \<Rightarrow> fs \<Rightarrow> (failure + string \<times> size_t) \<times> fs" where
  "process_mem_loop mem sz s =
     (if 0 < sz then
        (case process_buf mem sz s of
           (Inl e, s1) \<Rightarrow> (Inl e, s1)
         | (Inr len, s1) \<Rightarrow> process_mem_loop (drop (unat len) mem) (sz - len) s1)
      else (Inr (mem, sz), s))"
  by pat_completeness auto
termination
proof (relation "measure (\<lambda>(mem, sz, s). unat sz)")
  show "wf (measure (\<lambda>(mem, sz, s). unat sz))" by simp
next
  fix mem :: string and sz :: size_t and s x y len
  assume "0 < sz" and "(x, y) = process_buf mem sz s" and "x = Inr len"
  then have "process_buf mem sz s = (Inr len, y)" by simp
  from process_buf_Inr_unat [OF this]
  have "unat (sz - len) < unat sz"
    by (simp add: unat_sub_if' word_le_nat_alt)
  then show "((drop (unat len) mem, sz - len, y), mem, sz, s) \<in> measure (\<lambda>(mem, sz, s). unat sz)"
    by simp
qed

declare process_mem_loop.simps [simp del]

definition process_mem :: "string \<Rightarrow> size_t \<Rightarrow> fs \<Rightarrow> (failure + unit) \<times> fs" where
  "process_mem mem sz s =
     (case process_mem_loop mem sz s of
        (Inl e, s1) \<Rightarrow> (Inl e, s1)
      | (Inr (mem', sz'), s1) \<Rightarrow> if sz' = 0 then (Inr (), s1) else (Inl SizeLeft, s1))"

subsection \<open>The numeric fields in the words of the specification\<close>

text \<open>
  The value of a numeric field as the specification describes it: after white space
  and an optional sign, a \<open>0x\<close> prefix selects hexadecimal, a leading \<open>0\<close> octal,
  anything else decimal, and the digits end at the first byte that is not a digit of
  the base. It is compared with \<^const>\<open>strtoul\<close> below.
\<close>

definition is_digit :: "nat \<Rightarrow> char \<Rightarrow> bool" where
  "is_digit b c = (case digit_of c of None \<Rightarrow> False | Some d \<Rightarrow> d < b)"




subsection \<open>Notions for stating the properties\<close>

text \<open>
  The names a path consists of (its non-empty components), and what makes a component
  the name of an entry.
\<close>

definition names :: "string \<Rightarrow> string list" where
  "names p = filter (\<lambda>c. c \<noteq> []) (split_slash p)"

definition proper :: "string \<Rightarrow> bool" where
  "proper c = (c \<noteq> [] \<and> CHR ''/'' \<notin> set c \<and> c \<noteq> ''.'' \<and> c \<noteq> ''..'' \<and> length c \<le> NAME_MAX)"

text \<open>
  \<open>extends s s'\<close>: from \<open>s\<close> to \<open>s'\<close> nothing but directories strictly below the working
  directory of \<open>s\<close> has been added, no entry has changed, and the working directory has
  only gone down.
\<close>

definition extends :: "fs \<Rightarrow> fs \<Rightarrow> bool" where
  "extends s s' \<longleftrightarrow>
     umask s' = umask s \<and> now s' = now s \<and> refuse s' = refuse s
     \<and> free_space s' = free_space s \<and> stdout s' = stdout s
     \<and> (\<forall>q i. lookup s q = Some i \<longrightarrow> lookup s' q = Some i)
     \<and> (\<forall>q. lookup s q = None \<longrightarrow> lookup s' q \<noteq> None \<longrightarrow>
            strict_prefix (cwd s) q \<and> is_dir s' q)
     \<and> prefix (cwd s) (cwd s')"

text \<open>\<open>dir_chain s cur ns\<close>: \<open>cur\<close> and every level \<open>cur @ take k ns\<close> below it is a directory.\<close>

fun dir_chain :: "fs \<Rightarrow> string list \<Rightarrow> string list \<Rightarrow> bool" where
  "dir_chain s cur [] = is_dir s cur"
| "dir_chain s cur (n # ns) = (is_dir s cur \<and> dir_chain s (cur @ [n]) ns)"

text \<open>\<open>same_but f s s'\<close>: only the entry at \<open>f\<close> and the free space may differ.\<close>

definition same_but :: "string list \<Rightarrow> fs \<Rightarrow> fs \<Rightarrow> bool" where
  "same_but f s s' \<longleftrightarrow>
     cwd s' = cwd s \<and> umask s' = umask s \<and> now s' = now s \<and> refuse s' = refuse s
     \<and> stdout s' = stdout s \<and> (\<forall>q. q \<noteq> f \<longrightarrow> lookup s' q = lookup s q)"

text \<open>A relative path with no trailing slash.\<close>

definition clean :: "string \<Rightarrow> bool" where
  "clean d = (d \<noteq> [] \<and> hd d \<noteq> CHR ''/'' \<and> last d \<noteq> CHR ''/'')"

text \<open>
  The framing of an archive in the words of the specification: the records lie back
  to back from offset 0, each as long as its header and its declared size together
  (\<open>total_length\<close>); the buffer is well formed when every header is there and can be
  read and every declared size fits in the bytes that remain.
\<close>

function records_of :: "string \<Rightarrow> fwpart list" where
  "records_of buf =
     (if buf = [] then []
      else case parse_fields buf of
        Inl e \<Rightarrow> []
      | Inr pt \<Rightarrow> pt # records_of (drop (sizeof_fwpart + unat (fw_size pt)) buf))"
  by pat_completeness auto
termination
  by (relation "measure length") (auto simp: sizeof_fwpart_256)

declare records_of.simps [simp del]

function well_formed :: "string \<Rightarrow> bool" where
  "well_formed buf =
     (if buf = [] then True
      else if length buf < sizeof_fwpart then False
      else case parse_fields buf of
        Inl e \<Rightarrow> False
      | Inr pt \<Rightarrow>
          if length buf < sizeof_fwpart + unat (fw_size pt) then False
          else well_formed (drop (sizeof_fwpart + unat (fw_size pt)) buf))"
  by pat_completeness auto
termination
  by (relation "measure length") (auto simp: sizeof_fwpart_256)

declare well_formed.simps [simp del]

definition total_length :: "fwpart \<Rightarrow> nat" where
  "total_length pt = sizeof_fwpart + unat (fw_size pt)"

subsection \<open>Example inputs\<close>

text \<open>
  An empty file system with the root as working directory, the usual mask \<open>022\<close> (18)
  and room for 4096 bytes.
\<close>

definition fs0 :: fs where
  "fs0 = \<lparr>nodes = Map.empty, cwd = [], umask = 18, now = 1000, refuse = (\<lambda>p. False),
          free_space = 4096, stdout = []\<rparr>"

text \<open>Headers are built from their fields, each padded with NUL to its width.\<close>

definition pad :: "nat \<Rightarrow> string \<Rightarrow> string" where
  "pad n t = t @ replicate (n - length t) NUL"

definition mk_header ::
    "string \<Rightarrow> string \<Rightarrow> string \<Rightarrow> string \<Rightarrow> string \<Rightarrow> string \<Rightarrow> string \<Rightarrow> string" where
  "mk_header name sz mode time rsvd path vers =
     pad name_width name @ pad size_width sz @ replicate hash_width NUL @ pad mode_width mode
     @ pad time_width time @ pad rsvd_width rsvd @ pad path_width path @ pad vers_width vers"


text \<open>
  A header whose path fills its 60 bytes with no NUL, a header whose size field is
  \<open>-1\<close>, an archive of one record with an 11-byte payload, and a file system with room
  for 4 more bytes.
\<close>

definition long_path :: string where
  "long_path = ''d/'' @ replicate 58 (CHR ''x'')"

definition hdr_long :: string where
  "hdr_long = mk_header ''boot'' ''0'' ''0644'' ''0'' ''0'' long_path ''V1''"

definition hdr_neg :: string where
  "hdr_neg = mk_header ''boot'' ''-1'' ''0644'' ''0'' ''0'' ''d/f'' ''V1''"

definition arch_hello :: string where
  "arch_hello = mk_header ''greeting'' ''11'' ''0644'' ''77'' ''0'' ''d/f'' ''V1'' @ ''hello world''"

definition fs_full :: fs where
  "fs_full = fs0\<lparr>free_space := 4\<rparr>"

text \<open>
  File systems with a working directory \<open>/tmp\<close>, with a regular file at \<open>a/b\<close>, and with
  directories \<open>a\<close> and \<open>a/b\<close>; an archive of two records, and one whose only record has a
  path with no directory part.
\<close>

definition dir_inode :: inode where
  "dir_inode = \<lparr>i_kind = Directory, i_perm = 493, i_data = [], i_atime = 0, i_mtime = 0\<rparr>"

definition file_inode :: inode where
  "file_inode = \<lparr>i_kind = Regular, i_perm = 420, i_data = ''old'', i_atime = 0, i_mtime = 0\<rparr>"

definition fs_tmp :: fs where
  "fs_tmp = fs0\<lparr>nodes := [[''tmp''] \<mapsto> dir_inode], cwd := [''tmp'']\<rparr>"

definition fs_file :: fs where
  "fs_file = fs0\<lparr>nodes := [[''a''] \<mapsto> dir_inode, [''a'', ''b''] \<mapsto> file_inode]\<rparr>"

definition fs_dirs :: fs where
  "fs_dirs = fs0\<lparr>nodes := [[''a''] \<mapsto> dir_inode, [''a'', ''b''] \<mapsto> dir_inode]\<rparr>"

definition rec_boot :: string where
  "rec_boot = mk_header ''boot'' ''0x3'' ''0755'' ''77'' ''0'' ''/home/boot.bin'' ''V1'' @ ''abc''"

definition rec_cfg :: string where
  "rec_cfg = mk_header ''cfg'' ''2'' ''0644'' ''78'' ''0'' ''home/etc/cfg'' ''V1'' @ ''xy''"

definition arch_two :: string where
  "arch_two = rec_boot @ rec_cfg"

definition arch_bare :: string where
  "arch_bare = mk_header ''boot'' ''3'' ''0644'' ''0'' ''0'' ''boot.bin'' ''V1'' @ ''abc''"

section \<open>Properties\<close>

subsection \<open>Paths with no directory part\<close>

lemma strip_trailing_no_slash:
  "CHR ''/'' \<notin> set p \<Longrightarrow> strip_trailing p = p"
proof -
  assume a: "CHR ''/'' \<notin> set p"
  have "dropWhile (\<lambda>c. c = CHR ''/'') (rev p) = rev p"
  proof (cases "rev p")
    case Nil then show ?thesis by simp
  next
    case (Cons x xs)
    then have "x \<in> set p" by (metis list.set_intros(1) set_rev)
    with a have "x \<noteq> CHR ''/''" by auto
    with Cons show ?thesis by simp
  qed
  then show ?thesis by (simp add: strip_trailing_def)
qed

lemma dirname_no_slash:
  "CHR ''/'' \<notin> set p \<Longrightarrow> dirname p = ''.''"
  by (simp add: dirname_def Let_def strip_trailing_no_slash)

lemma u_mkdir_dot: "u_mkdir ''.'' mode s = (Inl DotPath, s)"
  by (simp add: u_mkdir_def)

lemma u_mkdir_p_dot: "u_mkdir_p ''.'' mode s = (Inl DotPath, s)"
  by (subst u_mkdir_p.simps) (simp add: u_mkdir_dot)

text \<open>
  C10. A record whose path, after the leading slashes are stripped, has no slash at
  all is never extracted: \<^verbatim>\<open>dirname\<close> gives \<open>.\<close>, \<^verbatim>\<open>_mkdir\<close> stops at the assertion of
  line 70, and the file system is as it was (no file has been opened or written).
\<close>

theorem bare_filename_aborts:
  assumes "CHR ''/'' \<notin> set (dropWhile (\<lambda>c. c = CHR ''/'') path0)"
  shows "save_buf path0 buf sz mode time s = (Inl DotPath, s)"
  using assms
  by (simp add: save_buf_def mkdir_p_fn_def dirname_no_slash u_mkdir_p_dot)

theorem bare_filename_aborts_witness:
  "CHR ''/'' \<notin> set (dropWhile (\<lambda>c. c = CHR ''/'') ''/file.bin'')
   \<and> save_buf ''/file.bin'' ''abc'' 3 420 0 fs0 = (Inl DotPath, fs0)"
  using bare_filename_aborts [of "''/file.bin''" "''abc''" 3 420 0 fs0]
  by simp

subsection \<open>Numeric fields\<close>



lemma is_digit_0: "is_digit 8 (CHR ''0'')" "\<not> is_digit 10 (CHR ''x'')"
  by (simp_all add: is_digit_def digit_of_def)





lemma parse_fields_Inr:
  assumes "parse_fields mem = Inr pt"
  shows "strtoul (drop off_size mem) = Inr (fw_size pt)"
    and "\<exists>m. strtoul (drop off_mode mem) = Inr m \<and> fw_mode pt = ucast m"
    and "strtoul (drop off_time mem) = Inr (fw_time pt)"
    and "strtoul (drop off_rsvd mem) = Inr (fw_rsvd pt)"
    and "c_str (drop off_name mem) = Inr (fw_name pt)"
    and "c_str (drop off_path mem) = Inr (fw_path pt)"
    and "c_str (drop off_vers mem) = Inr (fw_vers pt)"
  using assms unfolding parse_fields_def
  by (simp_all split: sum.splits) auto

lemma replicate_numeral_Cons:
  "replicate (numeral k) x = x # replicate (pred_numeral k) x"
  by (simp add: numeral_eq_Suc)

lemmas layout_defs = sizeof_fwpart_def off_vers_def off_path_def off_rsvd_def off_time_def
  off_mode_def off_hash_def off_size_def off_name_def name_width_def size_width_def
  hash_width_def mode_width_def time_width_def rsvd_width_def path_width_def vers_width_def

lemmas strtoul_eval = strtoul_def isspace_def digit_of_def to_ulong_def ULONG_MAX_def NUL_def





subsection \<open>Evaluating concrete inputs\<close>

text \<open>
  Concrete runs are evaluated by rewriting with the definitions, arguments first
  (the weak congruence rules keep the simplifier out of a branch until its condition
  is decided).
\<close>

lemmas fs_eval = save_buf_def mkdir_p_fn_def dirname_def strip_trailing_def u_mkdir_p.simps
  u_mkdir_def u_chdir_def sys_stat_def sys_mkdir_def sys_chdir_def sys_open_dir_def
  sys_fchdir_def sys_fopen_w_def sys_write_def sys_chmod_def sys_utime_def resolve_def
  start_dir_def lookup_def is_dir_def new_inode_def NAME_MAX_def root_inode_def Let_def

lemmas hdr_eval = parse_fields_def mk_header_def pad_def layout_defs strtoul_eval c_str_def
  replicate_numeral_Cons

subsection \<open>String fields\<close>

text \<open>
  A string field with no NUL inside its width is read on into the next member: the
  path of such a record is the 60 bytes of the field followed by the version string.
\<close>

lemma unterminated_path_runs_on:
  assumes "parse_fields mem = Inr pt"
    and "NUL \<notin> set (take path_width (drop off_path mem))"
  shows "fw_path pt = take path_width (drop off_path mem) @ fw_vers pt"
proof -
  let ?A = "take path_width (drop off_path mem)"
  have "drop path_width (drop off_path mem) = drop off_vers mem"
    by (simp only: drop_drop off_vers_def add.commute)
  with append_take_drop_id [of path_width "drop off_path mem"]
  have split: "drop off_path mem = ?A @ drop off_vers mem"
    by (simp only:)
  have "takeWhile (\<lambda>c. c \<noteq> NUL) (?A @ drop off_vers mem)
        = ?A @ takeWhile (\<lambda>c. c \<noteq> NUL) (drop off_vers mem)"
    using assms(2) by (intro takeWhile_append2) auto
  moreover from parse_fields_Inr(6,7) [OF assms(1)]
  have "fw_path pt = takeWhile (\<lambda>c. c \<noteq> NUL) (drop off_path mem)"
    and "fw_vers pt = takeWhile (\<lambda>c. c \<noteq> NUL) (drop off_vers mem)"
    by (auto simp: c_str_def split: if_splits)
  ultimately show ?thesis using split by simp
qed

lemma parse_hdr_long:
  "parse_fields hdr_long =
     Inr \<lparr>fw_name = ''boot'', fw_size = 0, fw_mode = 420, fw_time = 0, fw_rsvd = 0,
          fw_path = long_path @ ''V1'', fw_vers = ''V1''\<rparr>"
  by (simp add: hdr_long_def long_path_def hdr_eval)

text \<open>
  C7. The name, path and version strings are read as C strings from the start of
  their member (\<^verbatim>\<open>printf("%s")\<close>, and the \<^verbatim>\<open>path\<close> argument of \<^verbatim>\<open>save_buf\<close>); nothing
  stops the read at the width of the member. For the header \<^const>\<open>hdr_long\<close>, whose
  path member holds 60 bytes and no NUL, the decoded path has 62 bytes: those of the
  member and the two of the version member behind it. Decoding bounded by the width
  would give the 60 bytes.
\<close>

theorem path_field_overrun:
  "\<exists>pt. parse_fields hdr_long = Inr pt \<and> fw_path pt = long_path @ fw_vers pt
        \<and> fw_vers pt = ''V1'' \<and> length (fw_path pt) = 62 \<and> path_width = 60
        \<and> fw_path pt \<noteq> takeWhile (\<lambda>c. c \<noteq> NUL) (take path_width (drop off_path hdr_long))"
  by (simp add: parse_hdr_long) (simp add: hdr_long_def long_path_def hdr_eval)

subsection \<open>The bound on the payload\<close>

lemma unat_m1: "unat (- 1 :: size_t) = 18446744073709551615"
  by (simp add: unsigned_minus_1_eq_mask mask_eq_exp_minus_1)

lemma parse_hdr_neg:
  "parse_fields hdr_neg =
     Inr \<lparr>fw_name = ''boot'', fw_size = - 1, fw_mode = 420, fw_time = 0, fw_rsvd = 0,
          fw_path = ''d/f'', fw_vers = ''V1''\<rparr>"
  by (simp add: hdr_neg_def hdr_eval)

lemma length_hdr_neg: "length hdr_neg = 256"
  by (simp add: hdr_neg_def mk_header_def pad_def layout_defs)

text \<open>
  C2. The check of line 164 compares \<open>count\<close> with \<^verbatim>\<open>sizeof(struct fwpart) + size\<close>
  computed in \<^verbatim>\<open>size_t\<close>. For the 256-byte record \<^const>\<open>hdr_neg\<close>, whose size field is
  \<open>-1\<close>, \<^verbatim>\<open>strtoul\<close> returns \<open>2^64 - 1\<close>, the sum wraps to 255, the assertion holds and
  \<^verbatim>\<open>save_buf\<close> is called with a size the buffer does not hold: the record is not
  rejected as truncated, and \<^verbatim>\<open>fwrite\<close> reads past the buffer.
\<close>

theorem payload_check_wraps:
  "\<exists>pt. parse_fields hdr_neg = Inr pt \<and> unat (fw_size pt) = 2 ^ 64 - 1
        \<and> length hdr_neg = 256
        \<and> of_nat sizeof_fwpart + fw_size pt = (255 :: size_t)
        \<and> fst (process_buf hdr_neg 256 fs0) = Inl OutOfBounds
        \<and> fst (process_buf hdr_neg 256 fs0) \<noteq> Inl TruncatedPayload"
proof -
  have t: "take 256 hdr_neg = hdr_neg"
    using length_hdr_neg by simp
  have "fst (process_buf hdr_neg 256 fs0) = Inl OutOfBounds"
    by (simp add: process_buf_def t parse_hdr_neg unat_m1 sizeof_fwpart_256 length_hdr_neg fs_eval fs0_def
        split del: if_split cong: prod.case_cong_weak sum.case_cong_weak option.case_cong_weak
          list.case_cong_weak if_weak_cong)
  then show ?thesis
    by (simp add: parse_hdr_neg length_hdr_neg sizeof_fwpart_256 unat_m1)
qed

subsection \<open>Results the program does not look at\<close>

lemma length_arch_hello: "length arch_hello = 267"
  by (simp add: arch_hello_def mk_header_def pad_def layout_defs)

lemma parse_arch_hello:
  "parse_fields arch_hello =
     Inr \<lparr>fw_name = ''greeting'', fw_size = 11, fw_mode = 420, fw_time = 77, fw_rsvd = 0,
          fw_path = ''d/f'', fw_vers = ''V1''\<rparr>"
  by (simp add: arch_hello_def hdr_eval)

lemma payload_arch_hello: "drop 256 arch_hello = ''hello world''"
  by (simp add: arch_hello_def mk_header_def pad_def layout_defs)

lemma process_buf_arch_hello_full:
  "process_buf arch_hello 267 fs_full =
      (Inr 267, \<lparr>nodes = [[''d''] \<mapsto> \<lparr>i_kind = Directory, i_perm = 493, i_data = [],
                     i_atime = 1000, i_mtime = 1000\<rparr>,
                   [''d'', ''f''] \<mapsto> \<lparr>i_kind = Regular, i_perm = 420, i_data = ''hell'',
                     i_atime = 77, i_mtime = 77\<rparr>],
                 cwd = [], umask = 18, now = 1000, refuse = \<lambda>p. False, free_space = 0,
                 stdout = [\<lparr>fw_name = ''greeting'', fw_size = 11, fw_mode = 420, fw_time = 77,
                   fw_rsvd = 0, fw_path = ''d/f'', fw_vers = ''V1''\<rparr>]\<rparr>)"
proof -
  have t: "take 267 arch_hello = arch_hello"
    using length_arch_hello by simp
  show ?thesis
    by (simp add: process_buf_def t parse_arch_hello payload_arch_hello sizeof_fwpart_256
        fs_eval fs_full_def fs0_def
        split del: if_split cong: prod.case_cong_weak sum.case_cong_weak option.case_cong_weak
          list.case_cong_weak if_weak_cong)
qed

text \<open>
  C8. The results of \<^verbatim>\<open>fwrite\<close> and \<^verbatim>\<open>fclose\<close> are not looked at. With room for 4
  bytes only, the archive \<^const>\<open>arch_hello\<close> (one record, 11 bytes of payload) is
  processed to the end without a failure, and the file holds the first 4 bytes.
\<close>

theorem short_write_swallowed:
  "fst (process_mem arch_hello (of_nat (length arch_hello)) fs_full) = Inr ()
   \<and> map_option i_data
        (lookup (snd (process_mem arch_hello (of_nat (length arch_hello)) fs_full)) [''d'', ''f''])
      = Some ''hell''"
  by (simp add: process_mem_def length_arch_hello process_mem_loop.simps
      process_buf_arch_hello_full lookup_def
      split del: if_split cong: prod.case_cong_weak sum.case_cong_weak option.case_cong_weak
        list.case_cong_weak if_weak_cong)

subsection \<open>Path components\<close>

lemma split_slash_nonempty [simp]: "split_slash p \<noteq> []"
  by (induction p) (auto split: list.splits)

lemma split_slash_no_slash: "CHR ''/'' \<notin> set c \<Longrightarrow> split_slash c = [c]"
  by (induction c) auto

lemma split_slash_append:
  "split_slash (a @ CHR ''/'' # b) = split_slash a @ split_slash b"
proof (induction a)
  case Nil
  show ?case by simp
next
  case (Cons x a)
  show ?case
  proof (cases "x = CHR ''/''")
    case True
    with Cons show ?thesis by simp
  next
    case False
    obtain h t where ht: "split_slash a = h # t"
      using split_slash_nonempty [of a] by (cases "split_slash a") auto
    with Cons False show ?thesis by simp
  qed
qed

lemma split_slash_components: "c \<in> set (split_slash p) \<Longrightarrow> CHR ''/'' \<notin> set c"
proof (induction p arbitrary: c)
  case Nil
  then show ?case by simp
next
  case (Cons x p)
  obtain h t where ht: "split_slash p = h # t"
    using split_slash_nonempty [of p] by (cases "split_slash p") auto
  show ?case
  proof (cases "x = CHR ''/''")
    case True
    with Cons show ?thesis by auto
  next
    case False
    with Cons.prems ht have "c = x # h \<or> c \<in> set t" by simp
    then show ?thesis
    proof
      assume "c = x # h"
      moreover have "CHR ''/'' \<notin> set h" using Cons.IH [of h] ht by simp
      ultimately show ?thesis using False by auto
    next
      assume "c \<in> set t"
      then show ?thesis using Cons.IH [of c] ht by simp
    qed
  qed
qed

lemma names_Nil [simp]: "names [] = []"
  by (simp add: names_def)

lemma names_slash [simp]: "names (CHR ''/'' # p) = names p"
  by (simp add: names_def)

lemma names_dropWhile_slash [simp]: "names (dropWhile (\<lambda>c. c = CHR ''/'') p) = names p"
  by (induction p) simp_all

lemma names_append_slash: "names (a @ CHR ''/'' # b) = names a @ names b"
  by (simp add: names_def split_slash_append)

lemma names_no_slash: "CHR ''/'' \<notin> set c \<Longrightarrow> c \<noteq> [] \<Longrightarrow> names c = [c]"
  by (simp add: names_def split_slash_no_slash)

lemma takeWhile_dropWhile_slash:
  "dropWhile (\<lambda>c. c \<noteq> CHR ''/'') p \<noteq> [] \<Longrightarrow>
   \<exists>r. p = takeWhile (\<lambda>c. c \<noteq> CHR ''/'') p @ CHR ''/'' # r
       \<and> dropWhile (\<lambda>c. c \<noteq> CHR ''/'') p = CHR ''/'' # r"
proof -
  assume ne: "dropWhile (\<lambda>c. c \<noteq> CHR ''/'') p \<noteq> []"
  then have "hd (dropWhile (\<lambda>c. c \<noteq> CHR ''/'') p) = CHR ''/''"
    using hd_dropWhile [of "\<lambda>c. c \<noteq> CHR ''/''" p] by simp
  with ne obtain r where r: "dropWhile (\<lambda>c. c \<noteq> CHR ''/'') p = CHR ''/'' # r"
    by (cases "dropWhile (\<lambda>c. c \<noteq> CHR ''/'') p") auto
  with takeWhile_dropWhile_id [of "\<lambda>c. c \<noteq> CHR ''/''" p] show ?thesis
    by (metis)
qed

lemma first_component_no_slash: "CHR ''/'' \<notin> set (takeWhile (\<lambda>c. c \<noteq> CHR ''/'') p)"
  by (induction p) auto

text \<open>The first component and the rest, as \<^const>\<open>u_mkdir_p\<close> splits a path.\<close>

lemma names_unfold:
  assumes "takeWhile (\<lambda>c. c \<noteq> CHR ''/'') p \<noteq> []"
  shows "names p = takeWhile (\<lambda>c. c \<noteq> CHR ''/'') p
           # names (dropWhile (\<lambda>c. c = CHR ''/'') (dropWhile (\<lambda>c. c \<noteq> CHR ''/'') p))"
proof (cases "dropWhile (\<lambda>c. c \<noteq> CHR ''/'') p = []")
  case True
  then have tp: "takeWhile (\<lambda>c. c \<noteq> CHR ''/'') p = p"
    using takeWhile_dropWhile_id [of "\<lambda>c. c \<noteq> CHR ''/''" p] by simp
  with assms first_component_no_slash [of p] have "names p = [p]"
    by (simp add: names_no_slash)
  then show ?thesis
    unfolding True by (simp add: tp)
next
  case False
  from takeWhile_dropWhile_slash [OF False] obtain r where
    p: "p = takeWhile (\<lambda>c. c \<noteq> CHR ''/'') p @ CHR ''/'' # r"
    and d: "dropWhile (\<lambda>c. c \<noteq> CHR ''/'') p = CHR ''/'' # r"
    by blast
  have "names p = names (takeWhile (\<lambda>c. c \<noteq> CHR ''/'') p) @ names r"
    by (subst p) (rule names_append_slash)
  with assms first_component_no_slash [of p] d show ?thesis
    by (simp add: names_no_slash)
qed

subsection \<open>Single components: \<^verbatim>\<open>stat\<close>, \<^verbatim>\<open>mkdir\<close> and \<^verbatim>\<open>chdir\<close>\<close>

lemma is_dir_lookup: "is_dir s p \<longleftrightarrow> (\<exists>i. lookup s p = Some i \<and> i_kind i = Directory)"
  by (simp add: is_dir_def split: option.splits)

lemma kind_not_Directory [simp]: "(k \<noteq> Directory) = (k = Regular)"
  by (cases k) simp_all

lemma kind_not_Regular [simp]: "(k \<noteq> Regular) = (k = Directory)"
  by (cases k) simp_all

lemma resolve_name:
  "c \<noteq> [] \<Longrightarrow> CHR ''/'' \<notin> set c \<Longrightarrow> resolve s c = walk s (cwd s) [c]"
  by (cases c) (auto simp: resolve_def start_dir_def split_slash_no_slash)

lemma walk_one:
  "walk s cur [c] =
     (if NAME_MAX < length c then Inl ENAMETOOLONG
      else case lookup s cur of
        None \<Rightarrow> Inl ENOENT
      | Some i \<Rightarrow>
          if i_kind i = Regular then Inl ENOTDIR
          else if c = [] \<or> c = ''.'' then Inr cur
          else if c = ''..'' then Inr (butlast cur)
          else Inr (cur @ [c]))"
  by (simp split: option.splits)

lemma sys_mkdir_name:
  assumes "c \<noteq> []" "CHR ''/'' \<notin> set c"
  shows "sys_mkdir s c mode =
     (if NAME_MAX < length c then Inl ENAMETOOLONG
      else case lookup s (cwd s) of
        None \<Rightarrow> Inl ENOENT
      | Some d \<Rightarrow>
          if i_kind d = Regular then Inl ENOTDIR
          else if c = ''.'' \<or> c = ''..'' then Inl EEXIST
          else if lookup s (cwd s @ [c]) \<noteq> None then Inl EEXIST
          else if refuse s (cwd s @ [c]) then Inl EACCES
          else Inr (s\<lparr>nodes := (nodes s)(cwd s @ [c] \<mapsto> new_inode Directory (mode AND 511) s)\<rparr>))"
proof -
  from assms have st: "strip_trailing c = c" by (simp add: strip_trailing_no_slash)
  from assms have sd: "start_dir s c = cwd s" by (cases c) (auto simp: start_dir_def)
  from assms have ss: "split_slash c = [c]" by (simp add: split_slash_no_slash)
  show ?thesis
    unfolding sys_mkdir_def st Let_def ss
    using assms(1) by (auto simp: sd split: option.splits)
qed

text \<open>\<^verbatim>\<open>_mkdir\<close> on a single component, case by case.\<close>

lemma u_mkdir_name:
  assumes "CHR ''/'' \<notin> set c"
  shows "u_mkdir c mode s =
     (if c = [] then (Inl EmptyPath, s)
      else if c = ''.'' then (Inl DotPath, s)
      else if c = ''..'' then (Inl DotDotPath, s)
      else if NAME_MAX < length c then (Inl IndeterminateStat, s)
      else case lookup s (cwd s) of
        None \<Rightarrow> (Inl MkdirFailed, s)
      | Some d \<Rightarrow>
          if i_kind d = Regular then (Inl IndeterminateStat, s)
          else (case lookup s (cwd s @ [c]) of
            None \<Rightarrow>
              if refuse s (cwd s @ [c]) then (Inl MkdirFailed, s)
              else (Inr (), s\<lparr>nodes := (nodes s)(cwd s @ [c] \<mapsto>
                                 new_inode Directory (mode AND 511) s)\<rparr>)
          | Some i \<Rightarrow>
              if i_kind i = Directory then (Inr (), s) else (Inl DirectoryConflict, s)))"
proof (cases "c = []")
  case True
  then show ?thesis by (simp add: u_mkdir_def)
next
  case False
  with assms have hd: "hd c \<noteq> CHR ''/''" by (cases c) auto
  note rn = resolve_name [OF False assms, of s]
  note mk = sys_mkdir_name [OF False assms, of s mode]
  show ?thesis
    unfolding u_mkdir_def sys_stat_def rn walk_one mk
    using False hd
    by (auto split: option.splits)
qed

lemma u_mkdir_Inl: "u_mkdir c mode s = (Inl e, s') \<Longrightarrow> s' = s"
  unfolding u_mkdir_def by (simp split: if_splits sum.splits)

lemma u_mkdir_failures:
  "u_mkdir c mode s = (Inl e, s') \<Longrightarrow>
   e \<in> {EmptyPath, AbsolutePath, DotPath, DotDotPath, MkdirFailed, DirectoryConflict,
        IndeterminateStat}"
  unfolding u_mkdir_def by (auto split: if_splits sum.splits)

lemma u_mkdir_Inr:
  assumes "CHR ''/'' \<notin> set c" and "u_mkdir c mode s = (Inr u, s')"
  shows "proper c" and "is_dir s (cwd s)" and "is_dir s' (cwd s @ [c])" and "cwd s' = cwd s"
    and "s' = s \<or> lookup s (cwd s @ [c]) = None
           \<and> s' = s\<lparr>nodes := (nodes s)(cwd s @ [c] \<mapsto> new_inode Directory (mode AND 511) s)\<rparr>"
  using assms(2) unfolding u_mkdir_name [OF assms(1)]
  by (auto simp: proper_def assms(1) is_dir_def lookup_def new_inode_def
      split: if_splits option.splits)

lemma sys_open_dir_dot: "is_dir s (cwd s) \<Longrightarrow> sys_open_dir s ''.'' = Inr (cwd s)"
  by (auto simp: sys_open_dir_def resolve_def start_dir_def is_dir_def NAME_MAX_def
      split: option.splits)

lemma u_chdir_name:
  assumes "proper c" "is_dir s (cwd s)" "is_dir s (cwd s @ [c])"
  shows "u_chdir c s = (Inr (), s\<lparr>cwd := cwd s @ [c]\<rparr>)"
proof -
  from assms(1) have "resolve s c = walk s (cwd s) [c]"
    by (simp add: resolve_name proper_def)
  with assms show ?thesis
    by (auto simp: u_chdir_def sys_chdir_def walk_one proper_def is_dir_def
        split: option.splits)
qed

lemma u_mkdir_p_rest_shorter:
  assumes "dropWhile (\<lambda>c. c \<noteq> CHR ''/'') path \<noteq> []"
  shows "length (dropWhile (\<lambda>c. c = CHR ''/'') (dropWhile (\<lambda>c. c \<noteq> CHR ''/'') path))
         < length path"
proof -
  from takeWhile_dropWhile_slash [OF assms] obtain r where
    d: "dropWhile (\<lambda>c. c \<noteq> CHR ''/'') path = CHR ''/'' # r" by blast
  have "length (dropWhile (\<lambda>c. c = CHR ''/'') r) \<le> length r"
    by (rule length_dropWhile_le)
  moreover have "length (CHR ''/'' # r) \<le> length path"
    using length_dropWhile_le [of "\<lambda>c. c \<noteq> CHR ''/''" path] d by simp
  ultimately show ?thesis by (simp add: d)
qed

subsection \<open>Directory creation\<close>

text \<open>One step of \<^verbatim>\<open>_mkdir_p\<close>: the outcomes that can occur.\<close>

lemma u_mkdir_p_cases:
  assumes run: "u_mkdir_p path mode s = (r, s')"
  obtains
    (fail) e where "u_mkdir (takeWhile (\<lambda>c. c \<noteq> CHR ''/'') path) mode s = (Inl e, s)"
                   "r = Inl e" "s' = s"
  | (leaf) "dropWhile (\<lambda>c. c \<noteq> CHR ''/'') path = []"
           "u_mkdir (takeWhile (\<lambda>c. c \<noteq> CHR ''/'') path) mode s = (Inr (), s')" "r = Inr ()"
  | (node_fail) s1 e where "dropWhile (\<lambda>c. c \<noteq> CHR ''/'') path \<noteq> []"
           "u_mkdir (takeWhile (\<lambda>c. c \<noteq> CHR ''/'') path) mode s = (Inr (), s1)"
           "u_mkdir_p (dropWhile (\<lambda>c. c = CHR ''/'') (dropWhile (\<lambda>c. c \<noteq> CHR ''/'') path)) mode
              (s1\<lparr>cwd := cwd s @ [takeWhile (\<lambda>c. c \<noteq> CHR ''/'') path]\<rparr>) = (Inl e, s')"
           "r = Inl e"
  | (node_ok) s1 s3 where "dropWhile (\<lambda>c. c \<noteq> CHR ''/'') path \<noteq> []"
           "u_mkdir (takeWhile (\<lambda>c. c \<noteq> CHR ''/'') path) mode s = (Inr (), s1)"
           "u_mkdir_p (dropWhile (\<lambda>c. c = CHR ''/'') (dropWhile (\<lambda>c. c \<noteq> CHR ''/'') path)) mode
              (s1\<lparr>cwd := cwd s @ [takeWhile (\<lambda>c. c \<noteq> CHR ''/'') path]\<rparr>) = (Inr (), s3)"
           "r = Inr ()" "s' = sys_fchdir s3 (cwd s)"
proof -
  let ?comp = "takeWhile (\<lambda>c. c \<noteq> CHR ''/'') path"
  let ?rest = "dropWhile (\<lambda>c. c \<noteq> CHR ''/'') path"
  obtain r1 s1 where m: "u_mkdir ?comp mode s = (r1, s1)" by (meson surj_pair)
  have run': "(let comp = ?comp; rest = ?rest
      in case u_mkdir comp mode s of
           (Inl e, s1) \<Rightarrow> (Inl e, s1)
         | (Inr u, s1) \<Rightarrow>
             if rest = [] then (Inr (), s1)
             else
               (case sys_open_dir s1 ''.'' of
                  Inl e \<Rightarrow> (Inl OpenFailed, s1)
                | Inr fd \<Rightarrow>
                    (case u_chdir comp s1 of
                       (Inl e, s2) \<Rightarrow> (Inl e, s2)
                     | (Inr u, s2) \<Rightarrow>
                         (case u_mkdir_p (dropWhile (\<lambda>c. c = CHR ''/'') rest) mode s2 of
                            (Inl e, s3) \<Rightarrow> (Inl e, s3)
                          | (Inr u, s3) \<Rightarrow> (Inr (), sys_fchdir s3 fd))))) = (r, s')"
    using run by (subst (asm) u_mkdir_p.simps)
  show thesis
  proof (cases r1)
    case (Inl e)
    with m u_mkdir_Inl [of ?comp mode s e s1] have "u_mkdir ?comp mode s = (Inl e, s)" by simp
    moreover from run' have "r = Inl e" "s' = s1"
      by (simp_all only: Let_def m Inl prod.case sum.case prod.inject)
    ultimately show thesis using fail m Inl u_mkdir_Inl by blast
  next
    case (Inr u)
    with m have m': "u_mkdir ?comp mode s = (Inr (), s1)" by simp
    note f = u_mkdir_Inr [OF first_component_no_slash m']
    show thesis
    proof (cases "?rest = []")
      case True
      from run' have "r = Inr ()" "s' = s1"
        by (simp_all only: Let_def m' True prod.case sum.case if_True prod.inject simp_thms)
      with m' True show thesis using leaf by blast
    next
      case False
      from f have d1: "is_dir s1 (cwd s1)"
        using f(5) by (auto simp: is_dir_def lookup_def split: if_splits)
      have op: "sys_open_dir s1 ''.'' = Inr (cwd s)"
        using sys_open_dir_dot [OF d1] f(4) by simp
      have cd: "u_chdir ?comp s1 = (Inr (), s1\<lparr>cwd := cwd s @ [?comp]\<rparr>)"
        using u_chdir_name [OF f(1) d1] f(3,4) by simp
      obtain r3 s3 where rec: "u_mkdir_p (dropWhile (\<lambda>c. c = CHR ''/'') ?rest) mode
              (s1\<lparr>cwd := cwd s @ [?comp]\<rparr>) = (r3, s3)" by (meson surj_pair)
      show thesis
      proof (cases r3)
        case (Inl e)
        from run' have "r = Inl e" "s' = s3"
          by (simp_all only: Let_def m' False op cd rec Inl prod.case sum.case if_False
              prod.inject simp_thms)
        with m' False rec Inl show thesis using node_fail by blast
      next
        case (Inr u3)
        from run' have "r = Inr ()" "s' = sys_fchdir s3 (cwd s)"
          by (simp_all only: Let_def m' False op cd rec Inr prod.case sum.case if_False
              prod.inject simp_thms)
        with m' False rec Inr show thesis using node_ok by simp
      qed
    qed
  qed
qed

lemma extends_refl: "extends s s"
  by (simp add: extends_def)

lemma extends_is_dir: "extends s s' \<Longrightarrow> is_dir s q \<Longrightarrow> is_dir s' q"
  by (auto simp: extends_def is_dir_lookup)

lemma extends_trans:
  assumes a: "extends s s1" and b: "extends s1 s2"
  shows "extends s s2"
proof -
  have env: "umask s2 = umask s \<and> now s2 = now s \<and> refuse s2 = refuse s
     \<and> free_space s2 = free_space s \<and> stdout s2 = stdout s"
    using a b by (simp add: extends_def)
  have keep: "lookup s2 q = Some i" if "lookup s q = Some i" for q i
    using a b that by (simp add: extends_def)
  have new: "strict_prefix (cwd s) q \<and> is_dir s2 q"
    if n: "lookup s q = None" and m: "lookup s2 q \<noteq> None" for q
  proof (cases "lookup s1 q")
    case None
    with b m have "strict_prefix (cwd s1) q" "is_dir s2 q" by (auto simp: extends_def)
    moreover from a have "prefix (cwd s) (cwd s1)" by (simp add: extends_def)
    ultimately show ?thesis using prefix_order.le_less_trans by blast
  next
    case (Some i)
    with a n have "strict_prefix (cwd s) q" "is_dir s1 q" by (auto simp: extends_def)
    with extends_is_dir [OF b] show ?thesis by simp
  qed
  have pre: "prefix (cwd s) (cwd s2)"
    using a b by (auto simp: extends_def)
  from env keep new pre show ?thesis
    unfolding extends_def by blast
qed

lemma lookup_cwd_update [simp]: "lookup (s\<lparr>cwd := c\<rparr>) q = lookup s q"
  by (simp add: lookup_def)

lemma is_dir_cwd_update [simp]: "is_dir (s\<lparr>cwd := c\<rparr>) q = is_dir s q"
  by (simp add: is_dir_def)

lemma extends_chdir: "prefix (cwd s) c \<Longrightarrow> extends s (s\<lparr>cwd := c\<rparr>)"
  by (simp add: extends_def)

lemma sys_fchdir_cases: "sys_fchdir s fd = s\<lparr>cwd := fd\<rparr> \<or> sys_fchdir s fd = s"
  by (simp add: sys_fchdir_def)

lemma sys_fchdir_dir: "is_dir s fd \<Longrightarrow> sys_fchdir s fd = s\<lparr>cwd := fd\<rparr>"
  by (simp add: sys_fchdir_def)

lemma extends_fchdir:
  assumes "extends s s3" shows "extends s (sys_fchdir s3 (cwd s))"
proof -
  from assms have "extends s (s3\<lparr>cwd := cwd s\<rparr>)"
    by (simp add: extends_def)
  with assms sys_fchdir_cases [of s3 "cwd s"] show ?thesis by auto
qed

lemma u_mkdir_extends:
  assumes "CHR ''/'' \<notin> set c" and "u_mkdir c mode s = (r, s')"
  shows "extends s s'"
proof (cases r)
  case (Inl e)
  with assms u_mkdir_Inl have "s' = s" by blast
  then show ?thesis by (simp add: extends_refl)
next
  case (Inr u)
  with assms have m: "u_mkdir c mode s = (Inr u, s')" by simp
  from u_mkdir_Inr(5) [OF assms(1) m] show ?thesis
  proof
    assume "s' = s" then show ?thesis by (simp add: extends_refl)
  next
    assume n: "lookup s (cwd s @ [c]) = None \<and>
      s' = s\<lparr>nodes := (nodes s)(cwd s @ [c] \<mapsto> new_inode Directory (mode AND 511) s)\<rparr>"
    then show ?thesis
      by (auto simp: extends_def lookup_def is_dir_def new_inode_def strict_prefix_def
          split: if_splits)
  qed
qed

lemma u_mkdir_p_extends:
  "u_mkdir_p path mode s = (r, s') \<Longrightarrow> extends s s'"
proof (induction path arbitrary: s r s' rule: measure_induct_rule [of length])
  case (less path)
  let ?comp = "takeWhile (\<lambda>c. c \<noteq> CHR ''/'') path"
  let ?rest = "dropWhile (\<lambda>c. c = CHR ''/'') (dropWhile (\<lambda>c. c \<noteq> CHR ''/'') path)"
  from less.prems show ?case
  proof (cases rule: u_mkdir_p_cases)
    case (fail e)
    then show ?thesis by (simp add: extends_refl)
  next
    case leaf
    from u_mkdir_extends [OF first_component_no_slash leaf(2)] show ?thesis .
  next
    case (node_fail s1 e)
    note e1 = u_mkdir_extends [OF first_component_no_slash node_fail(2)]
    have c1: "cwd s1 = cwd s"
      by (rule u_mkdir_Inr(4) [OF first_component_no_slash node_fail(2)])
    have e2: "extends s1 (s1\<lparr>cwd := cwd s @ [?comp]\<rparr>)"
      by (rule extends_chdir) (simp add: c1)
    have e3: "extends (s1\<lparr>cwd := cwd s @ [?comp]\<rparr>) s'"
      using less.IH [OF u_mkdir_p_rest_shorter [OF node_fail(1)] node_fail(3)] .
    from e1 e2 e3 show ?thesis by (blast intro: extends_trans)
  next
    case (node_ok s1 s3)
    note e1 = u_mkdir_extends [OF first_component_no_slash node_ok(2)]
    have c1: "cwd s1 = cwd s"
      by (rule u_mkdir_Inr(4) [OF first_component_no_slash node_ok(2)])
    have e2: "extends s1 (s1\<lparr>cwd := cwd s @ [?comp]\<rparr>)"
      by (rule extends_chdir) (simp add: c1)
    have e3: "extends (s1\<lparr>cwd := cwd s @ [?comp]\<rparr>) s3"
      using less.IH [OF u_mkdir_p_rest_shorter [OF node_ok(1)] node_ok(3)] .
    from e1 e2 e3 have "extends s s3" by (blast intro: extends_trans)
    from extends_fchdir [OF this] node_ok(5) show ?thesis by simp
  qed
qed

lemma u_mkdir_p_failures:
  "u_mkdir_p path mode s = (Inl e, s') \<Longrightarrow>
   e \<in> {EmptyPath, AbsolutePath, DotPath, DotDotPath, MkdirFailed, DirectoryConflict,
        IndeterminateStat}"
proof (induction path arbitrary: s s' e rule: measure_induct_rule [of length])
  case (less path)
  from less.prems show ?case
  proof (cases rule: u_mkdir_p_cases)
    case (fail e')
    with u_mkdir_failures [OF fail(1)] show ?thesis by simp
  next
    case leaf
    then show ?thesis by simp
  next
    case (node_fail s1 e')
    with less.IH [OF u_mkdir_p_rest_shorter [OF node_fail(1)] node_fail(3)] show ?thesis
      by simp
  next
    case (node_ok s1 s3)
    then show ?thesis by simp
  qed
qed

lemma dir_chain_nodes:
  "(\<And>q. is_dir s' q = is_dir s q) \<Longrightarrow> dir_chain s' cur ns = dir_chain s cur ns"
  by (induction ns arbitrary: cur) simp_all

lemma u_mkdir_p_Inr:
  assumes "u_mkdir_p path mode s = (Inr u, s')"
  shows "cwd s' = cwd s \<and> is_dir s (cwd s) \<and> names path \<noteq> []
         \<and> list_all proper (names path) \<and> dir_chain s' (cwd s) (names path)"
  using assms
proof (induction path arbitrary: s s' u rule: measure_induct_rule [of length])
  case (less path)
  let ?comp = "takeWhile (\<lambda>c. c \<noteq> CHR ''/'') path"
  let ?rest = "dropWhile (\<lambda>c. c = CHR ''/'') (dropWhile (\<lambda>c. c \<noteq> CHR ''/'') path)"
  from less.prems show ?case
  proof (cases rule: u_mkdir_p_cases)
    case (fail e)
    then show ?thesis by simp
  next
    case leaf
    note f = u_mkdir_Inr [OF first_component_no_slash leaf(2)]
    from f(1) have ne: "?comp \<noteq> []" by (simp add: proper_def)
    have n: "names path = [?comp]"
      using names_unfold [OF ne] leaf(1) by simp
    from f(2) u_mkdir_extends [OF first_component_no_slash leaf(2)]
    have "is_dir s' (cwd s)" by (rule extends_is_dir [rotated])
    with f n show ?thesis by simp
  next
    case (node_fail s1 e)
    then show ?thesis by simp
  next
    case (node_ok s1 s3)
    note f = u_mkdir_Inr [OF first_component_no_slash node_ok(2)]
    from f(1) have ne: "?comp \<noteq> []" by (simp add: proper_def)
    have n: "names path = ?comp # names ?rest"
      by (rule names_unfold [OF ne])
    from less.IH [OF u_mkdir_p_rest_shorter [OF node_ok(1)] node_ok(3)]
    have ih: "cwd s3 = cwd s @ [?comp]" "list_all proper (names ?rest)"
      "dir_chain s3 (cwd s @ [?comp]) (names ?rest)"
      by simp_all
    have "extends s s3"
      using u_mkdir_p_extends [OF less.prems] u_mkdir_p_extends [OF node_ok(3)]
        u_mkdir_extends [OF first_component_no_slash node_ok(2)] extends_chdir [of s1 "cwd s @ [?comp]"]
        f(4)
      by (auto intro: extends_trans)
    with f(2) have d3: "is_dir s3 (cwd s)" by (rule extends_is_dir [rotated])
    then have s': "s' = s3\<lparr>cwd := cwd s\<rparr>"
      using node_ok(5) by (simp add: sys_fchdir_dir)
    have "dir_chain s' (cwd s @ [?comp]) (names ?rest) = dir_chain s3 (cwd s @ [?comp]) (names ?rest)"
      by (rule dir_chain_nodes) (simp add: s')
    with ih d3 f n s' show ?thesis by simp
  qed
qed

subsection \<open>Path resolution\<close>

lemma walk_append:
  "walk s cur (xs @ ys) = (case walk s cur xs of Inl e \<Rightarrow> Inl e | Inr c \<Rightarrow> walk s c ys)"
  by (induction xs arbitrary: cur) (auto split: option.splits)

lemma walk_mono:
  assumes "walk s cur cs = Inr loc" and "\<And>q. is_dir s q \<Longrightarrow> is_dir s' q"
  shows "walk s' cur cs = Inr loc"
  using assms(1)
proof (induction cs arbitrary: cur)
  case Nil
  then show ?case by simp
next
  case (Cons c cs)
  from Cons.prems have d: "is_dir s cur"
    by (auto simp: is_dir_def split: if_splits option.splits)
  then have "is_dir s' cur" by (rule assms(2))
  then obtain i' where i': "lookup s' cur = Some i'" "i_kind i' = Directory"
    by (auto simp: is_dir_lookup)
  from d obtain i where i: "lookup s cur = Some i" "i_kind i = Directory"
    by (auto simp: is_dir_lookup)
  from Cons.prems i have
    "\<not> NAME_MAX < length c"
    "(if c = [] \<or> c = ''.'' then walk s cur cs
      else if c = ''..'' then walk s (butlast cur) cs else walk s (cur @ [c]) cs) = Inr loc"
    by (auto split: if_splits)
  with i' Cons.IH show ?case
    by (auto split: if_splits)
qed

lemma dir_chain_is_dir: "dir_chain s cur ns \<Longrightarrow> is_dir s cur"
  by (cases ns) simp_all

lemma walk_chain:
  assumes "list_all (\<lambda>c. c = [] \<or> proper c) cs"
    and "dir_chain s cur (filter (\<lambda>c. c \<noteq> []) cs)"
  shows "walk s cur cs = Inr (cur @ filter (\<lambda>c. c \<noteq> []) cs)"
  using assms
proof (induction cs arbitrary: cur)
  case Nil
  then show ?case by simp
next
  case (Cons c cs)
  from Cons.prems(2) have d: "is_dir s cur"
    by (cases "c = []") (auto dest: dir_chain_is_dir)
  then obtain i where i: "lookup s cur = Some i" "i_kind i = Directory"
    by (auto simp: is_dir_lookup)
  show ?case
  proof (cases "c = []")
    case True
    with Cons i show ?thesis by (simp add: NAME_MAX_def)
  next
    case False
    with Cons.prems have p: "proper c" and l: "list_all (\<lambda>c. c = [] \<or> proper c) cs"
      and ch: "dir_chain s (cur @ [c]) (filter (\<lambda>c. c \<noteq> []) cs)"
      by simp_all
    from Cons.IH [OF l ch] p i False show ?thesis
      by (simp add: proper_def)
  qed
qed

lemma names_replicate_slash [simp]: "names (replicate k (CHR ''/'')) = []"
  by (induction k) simp_all

lemma names_append_slashes [simp]: "names (a @ replicate k (CHR ''/'')) = names a"
proof (cases k)
  case 0
  then show ?thesis by simp
next
  case (Suc j)
  then show ?thesis by (simp add: names_append_slash)
qed

lemma strip_trailing_decomp: "\<exists>k. p = strip_trailing p @ replicate k (CHR ''/'')"
proof -
  have "takeWhile (\<lambda>c. c = CHR ''/'') (rev p)
        = replicate (length (takeWhile (\<lambda>c. c = CHR ''/'') (rev p))) (CHR ''/'')"
    by (rule replicate_length_same [symmetric]) (auto dest: set_takeWhileD)
  moreover have "p = rev (dropWhile (\<lambda>c. c = CHR ''/'') (rev p))
                   @ rev (takeWhile (\<lambda>c. c = CHR ''/'') (rev p))"
    by (metis rev_append rev_rev_ident takeWhile_dropWhile_id)
  ultimately show ?thesis
    unfolding strip_trailing_def by (metis rev_replicate)
qed

lemma names_strip_trailing [simp]: "names (strip_trailing p) = names p"
  using strip_trailing_decomp [of p] by (metis names_append_slashes)

lemma strip_trailing_Nil_names: "strip_trailing p = [] \<Longrightarrow> names p = []"
  using names_strip_trailing [of p] by simp

text \<open>A path split at its last slash: what \<^const>\<open>dirname\<close> and \<^const>\<open>split_slash\<close> make of it.\<close>

lemma strip_trailing_name:
  assumes "nm \<noteq> []" "CHR ''/'' \<notin> set nm"
  shows "strip_trailing (d0 @ CHR ''/'' # nm) = d0 @ CHR ''/'' # nm"
proof (cases "rev nm")
  case Nil
  with assms(1) show ?thesis by simp
next
  case (Cons x xs)
  then have "x \<in> set nm" by (metis list.set_intros(1) set_rev)
  with assms(2) have "x \<noteq> CHR ''/''" by auto
  with Cons show ?thesis by (simp add: strip_trailing_def)
qed

lemma names_dirname:
  assumes "nm \<noteq> []" "CHR ''/'' \<notin> set nm"
  shows "names (dirname (d0 @ CHR ''/'' # nm)) = names d0"
proof -
  have a: "dropWhile (\<lambda>c. c \<noteq> CHR ''/'') (rev nm @ CHR ''/'' # rev d0) = CHR ''/'' # rev d0"
    using assms(2) by (subst dropWhile_append2) auto
  have b: "strip_trailing (d0 @ [CHR ''/'']) = strip_trailing d0"
    by (simp add: strip_trailing_def)
  have "dirname (d0 @ CHR ''/'' # nm)
        = (if strip_trailing d0 = [] then ''/'' else strip_trailing d0)"
    unfolding dirname_def strip_trailing_name [OF assms]
    by (simp add: a b Let_def)
  then show ?thesis
    by (auto simp: strip_trailing_Nil_names)
qed

lemma split_slash_last:
  assumes "CHR ''/'' \<notin> set nm"
  shows "split_slash (d0 @ CHR ''/'' # nm) = split_slash d0 @ [nm]"
  by (simp add: split_slash_append split_slash_no_slash [OF assms])

subsection \<open>Opening and writing the file\<close>

lemma same_but_refl: "same_but f s s"
  by (simp add: same_but_def)

lemma same_but_trans: "same_but f s s1 \<Longrightarrow> same_but f s1 s2 \<Longrightarrow> same_but f s s2"
  by (simp add: same_but_def)

lemma sys_fopen_w_Inr:
  assumes "sys_fopen_w s p = Inr (f, s2)"
  shows "p \<noteq> []"
    and "\<exists>parent. walk s (start_dir s p) (butlast (split_slash p)) = Inr parent
           \<and> f = parent @ [last (split_slash p)] \<and> is_dir s parent"
    and "last (split_slash p) \<noteq> []" and "last (split_slash p) \<noteq> ''.''"
    and "last (split_slash p) \<noteq> ''..''" and "length (last (split_slash p)) \<le> NAME_MAX"
    and "\<not> is_dir s f"
    and "same_but f s s2" and "free_space s \<le> free_space s2"
    and "\<exists>i. lookup s2 f = Some i \<and> i_kind i = Regular \<and> i_data i = []"
proof -
  from assms show ne: "p \<noteq> []"
    by (auto simp: sys_fopen_w_def)
  obtain parent where w: "walk s (start_dir s p) (butlast (split_slash p)) = Inr parent"
    using assms ne unfolding sys_fopen_w_def Let_def
    by (cases "walk s (start_dir s p) (butlast (split_slash p))") simp_all
  let ?nm = "last (split_slash p)"
  from assms ne w have nm: "\<not> NAME_MAX < length ?nm"
    unfolding sys_fopen_w_def Let_def by (simp split: if_splits)
  from assms ne w nm obtain d where d: "lookup s parent = Some d"
    unfolding sys_fopen_w_def Let_def by (cases "lookup s parent") simp_all
  from assms ne w nm d have dk: "i_kind d = Directory"
    and n3: "\<not> (?nm = [] \<or> ?nm = ''.'' \<or> ?nm = ''..'')"
    unfolding sys_fopen_w_def Let_def by (simp_all split: if_splits)
  from n3 show "?nm \<noteq> []" "?nm \<noteq> ''.''" "?nm \<noteq> ''..''" by simp_all
  from nm show "length ?nm \<le> NAME_MAX" by simp
  from assms ne w nm d dk n3 have
    r: "(case lookup s (parent @ [?nm]) of
          None \<Rightarrow>
            if refuse s (parent @ [?nm]) then Inl EACCES
            else Inr (parent @ [?nm],
                      s\<lparr>nodes := (nodes s)(parent @ [?nm] \<mapsto> new_inode Regular 438 s)\<rparr>)
        | Some i \<Rightarrow>
            if i_kind i = Directory then Inl EISDIR
            else Inr (parent @ [?nm],
                      s\<lparr>nodes := (nodes s)(parent @ [?nm] \<mapsto> i\<lparr>i_data := [], i_mtime := now s\<rparr>),
                        free_space := free_space s + length (i_data i)\<rparr>)) = Inr (f, s2)"
    unfolding sys_fopen_w_def Let_def by simp
  then have f: "f = parent @ [?nm]"
    by (auto split: option.splits if_splits)
  with w d dk show "\<exists>parent. walk s (start_dir s p) (butlast (split_slash p)) = Inr parent
           \<and> f = parent @ [last (split_slash p)] \<and> is_dir s parent"
    by (simp add: is_dir_lookup)
  from r f show "\<not> is_dir s f"
    by (auto simp: is_dir_lookup split: option.splits if_splits)
  from r f show "same_but f s s2"
    by (auto simp: same_but_def lookup_def split: option.splits if_splits)
  from r show "free_space s \<le> free_space s2"
    by (auto split: option.splits if_splits)
  from r f show "\<exists>i. lookup s2 f = Some i \<and> i_kind i = Regular \<and> i_data i = []"
    by (auto simp: lookup_def new_inode_def split: option.splits if_splits)
qed

lemma same_but_dirs:
  assumes "same_but f s s'" "\<not> is_dir s f" "is_dir s q"
  shows "is_dir s' q"
proof -
  from assms(2,3) have "q \<noteq> f" by auto
  with assms(1,3) show ?thesis by (simp add: same_but_def is_dir_def)
qed

text \<open>The path that was opened names the file from then on.\<close>

lemma resolve_opened:
  assumes op: "sys_fopen_w s p = Inr (f, s2)"
    and cw: "cwd s' = cwd s" and dirs: "\<And>q. is_dir s q \<Longrightarrow> is_dir s' q"
  shows "resolve s' p = Inr f"
proof -
  note o = sys_fopen_w_Inr [OF op]
  from o(2) obtain parent where w: "walk s (start_dir s p) (butlast (split_slash p)) = Inr parent"
    and f: "f = parent @ [last (split_slash p)]" and pd: "is_dir s parent"
    by blast
  have sd: "start_dir s' p = start_dir s p" by (simp add: start_dir_def cw)
  have w': "walk s' (start_dir s' p) (butlast (split_slash p)) = Inr parent"
    unfolding sd using w dirs by (rule walk_mono)
  from dirs [OF pd] obtain i where i: "lookup s' parent = Some i" "i_kind i = Directory"
    by (auto simp: is_dir_lookup)
  have "walk s' parent [last (split_slash p)] = Inr f"
    unfolding walk_one using o(3-6) i f by simp
  moreover have "split_slash p = butlast (split_slash p) @ [last (split_slash p)]"
    by simp
  ultimately have "walk s' (start_dir s' p) (split_slash p) = Inr f"
    using w' walk_append [of s' "start_dir s' p" "butlast (split_slash p)" "[last (split_slash p)]"]
    by simp
  with o(1) show ?thesis by (simp add: resolve_def)
qed

lemma sys_write_at:
  assumes "lookup s f = Some i" "f \<noteq> []"
  shows "same_but f s (sys_write s f data)"
    and "lookup (sys_write s f data) f
         = Some (i\<lparr>i_data := i_data i @ take (min (length data) (free_space s)) data,
                   i_mtime := now s\<rparr>)"
  using assms by (simp_all add: sys_write_def same_but_def lookup_def Let_def)

lemma sys_chmod_at:
  assumes "resolve s p = Inr f" "lookup s f = Some i" "f \<noteq> []"
  shows "same_but f s (sys_chmod s p mode)"
    and "lookup (sys_chmod s p mode) f = Some (i\<lparr>i_perm := mode AND 4095\<rparr>)"
  using assms by (simp_all add: sys_chmod_def same_but_def lookup_def)

lemma sys_utime_at:
  assumes "resolve s p = Inr f" "lookup s f = Some i" "f \<noteq> []"
  shows "same_but f s (sys_utime s p a m)"
    and "lookup (sys_utime s p a m) f = Some (i\<lparr>i_atime := a, i_mtime := m\<rparr>)"
  using assms by (simp_all add: sys_utime_def same_but_def lookup_def)

text \<open>What a call of \<^verbatim>\<open>save_buf\<close> that returns has done.\<close>

lemma save_buf_Inr:
  assumes run: "save_buf path0 buf sz mode time s = (Inr u, s')"
  shows "\<exists>s1 f s2 i.
           u_mkdir_p (dirname (dropWhile (\<lambda>c. c = CHR ''/'') path0)) 511 s = (Inr (), s1)
         \<and> sys_fopen_w s1 (dropWhile (\<lambda>c. c = CHR ''/'') path0) = Inr (f, s2)
         \<and> unat sz \<le> length buf
         \<and> same_but f s1 s'
         \<and> resolve s' (dropWhile (\<lambda>c. c = CHR ''/'') path0) = Inr f
         \<and> lookup s' f = Some i \<and> i_kind i = Regular \<and> i_perm i = mode AND 4095
         \<and> i_data i = take (min (unat sz) (free_space s2)) buf
         \<and> i_atime i = time \<and> i_mtime i = time"
proof -
  let ?p = "dropWhile (\<lambda>c. c = CHR ''/'') path0"
  obtain r1 s1 where m: "u_mkdir_p (dirname ?p) 511 s = (r1, s1)" by (meson surj_pair)
  from run m have r1: "r1 = Inr ()"
    unfolding save_buf_def mkdir_p_fn_def Let_def by (cases r1) simp_all
  from run m r1 obtain f s2 where op: "sys_fopen_w s1 ?p = Inr (f, s2)"
    unfolding save_buf_def mkdir_p_fn_def Let_def
    by (cases "sys_fopen_w s1 ?p") auto
  from run m r1 op have len: "unat sz \<le> length buf"
    and s': "s' = sys_utime (sys_chmod (sys_write s2 f (take (unat sz) buf)) ?p mode) ?p time time"
    unfolding save_buf_def mkdir_p_fn_def Let_def by (simp_all split: if_splits)
  note o = sys_fopen_w_Inr [OF op]
  from o(2) have fne: "f \<noteq> []" by auto
  from o(10) obtain i0 where i0: "lookup s2 f = Some i0" "i_kind i0 = Regular" "i_data i0 = []"
    by blast
  let ?data = "take (unat sz) buf"
  let ?s3 = "sys_write s2 f ?data"
  let ?s4 = "sys_chmod ?s3 ?p mode"
  note w = sys_write_at [OF i0(1) fne, of ?data]
  have b13: "same_but f s1 ?s3" using o(8) w(1) by (rule same_but_trans)
  have r3: "resolve ?s3 ?p = Inr f"
    using op
  proof (rule resolve_opened)
    show "cwd ?s3 = cwd s1" using b13 by (simp add: same_but_def)
    show "is_dir ?s3 q" if "is_dir s1 q" for q using b13 o(7) that by (rule same_but_dirs)
  qed
  note c = sys_chmod_at [OF r3 w(2) fne, of mode]
  have b14: "same_but f s1 ?s4" using b13 c(1) by (rule same_but_trans)
  have r4: "resolve ?s4 ?p = Inr f"
    using op
  proof (rule resolve_opened)
    show "cwd ?s4 = cwd s1" using b14 by (simp add: same_but_def)
    show "is_dir ?s4 q" if "is_dir s1 q" for q using b14 o(7) that by (rule same_but_dirs)
  qed
  note t = sys_utime_at [OF r4 c(2) fne, of time time]
  have b15: "same_but f s1 s'" unfolding s' using b14 t(1) by (rule same_but_trans)
  have r5: "resolve s' ?p = Inr f"
    using op
  proof (rule resolve_opened)
    show "cwd s' = cwd s1" using b15 by (simp add: same_but_def)
    show "is_dir s' q" if "is_dir s1 q" for q using b15 o(7) that by (rule same_but_dirs)
  qed
  have "min (length ?data) (free_space s2) = min (unat sz) (free_space s2)"
    using len by simp
  then have "take (min (length ?data) (free_space s2)) ?data
             = take (min (unat sz) (free_space s2)) buf"
    by (simp add: min_def)
  with t(2) i0 have "\<exists>i. lookup s' f = Some i \<and> i_kind i = Regular \<and> i_perm i = mode AND 4095
         \<and> i_data i = take (min (unat sz) (free_space s2)) buf
         \<and> i_atime i = time \<and> i_mtime i = time"
    unfolding s' by simp
  with m r1 op len b15 r5 show ?thesis by blast
qed

lemma list_all_names:
  "list_all proper (names d) \<Longrightarrow> list_all (\<lambda>c. c = [] \<or> proper c) (split_slash d)"
  by (auto simp: names_def list_all_iff)

text \<open>
  Where the file is opened: below the working directory, at the components of the
  path.
\<close>

lemma opened_location:
  assumes mk: "u_mkdir_p (dirname p) mode s = (Inr u, s1)"
    and op: "sys_fopen_w s1 p = Inr (f, s2)"
    and rel: "hd p \<noteq> CHR ''/''"
  shows "f = cwd s @ names p" and "names p \<noteq> []"
proof -
  note o = sys_fopen_w_Inr [OF op]
  note k = u_mkdir_p_Inr [OF mk]
  have sl: "CHR ''/'' \<in> set p"
  proof (rule ccontr)
    assume "CHR ''/'' \<notin> set p"
    then have "dirname p = ''.''" by (rule dirname_no_slash)
    with mk show False by (simp add: u_mkdir_p_dot)
  qed
  from split_list_last [OF sl] obtain d0 nm where
    p: "p = d0 @ CHR ''/'' # nm" and nm: "CHR ''/'' \<notin> set nm"
    by blast
  have sp: "split_slash p = split_slash d0 @ [nm]"
    unfolding p using nm by (rule split_slash_last)
  with o(3) have nme: "nm \<noteq> []" by simp
  have nd: "names (dirname p) = names d0"
    unfolding p using nme nm by (rule names_dirname)
  from rel have sd: "start_dir s1 p = cwd s" using k by (simp add: start_dir_def)
  from o(2) sp sd obtain parent where w: "walk s1 (cwd s) (split_slash d0) = Inr parent"
    and f: "f = parent @ [nm]"
    by auto
  have "walk s1 (cwd s) (split_slash d0) = Inr (cwd s @ filter (\<lambda>c. c \<noteq> []) (split_slash d0))"
  proof (rule walk_chain)
    show "list_all (\<lambda>c. c = [] \<or> proper c) (split_slash d0)"
      using k nd by (simp add: list_all_names)
    show "dir_chain s1 (cwd s) (filter (\<lambda>c. c \<noteq> []) (split_slash d0))"
      using k nd by (simp add: names_def)
  qed
  with w have "parent = cwd s @ names d0" by (simp add: names_def)
  moreover have "names p = names d0 @ [nm]"
    unfolding p using nm nme by (simp add: names_append_slash names_no_slash)
  ultimately show "f = cwd s @ names p" and "names p \<noteq> []" using f by simp_all
qed

lemma hd_normalized:
  "dropWhile (\<lambda>c. c = CHR ''/'') path0 \<noteq> [] \<Longrightarrow> hd (dropWhile (\<lambda>c. c = CHR ''/'') path0) \<noteq> CHR ''/''"
  using hd_dropWhile [of "\<lambda>c. c = CHR ''/''" path0] by simp

text \<open>What \<^verbatim>\<open>save_buf\<close> leaves alone, however it ends.\<close>

lemma save_buf_frame:
  assumes run: "save_buf path0 buf sz mode time s = (r, s')"
  shows "stdout s' = stdout s" and "umask s' = umask s" and "now s' = now s"
    and "refuse s' = refuse s"
    and "\<And>q. \<not> strict_prefix (cwd s) q \<Longrightarrow> lookup s' q = lookup s q"
    and "\<And>q. is_dir s q \<Longrightarrow> is_dir s' q"
    and "\<And>u. r = Inr u \<Longrightarrow> cwd s' = cwd s"
    and "\<And>e. r = Inl e \<Longrightarrow> e \<in> {EmptyPath, AbsolutePath, DotPath, DotDotPath, MkdirFailed,
            DirectoryConflict, IndeterminateStat, FopenFailed, OutOfBounds}"
    and "\<And>e. r = Inl e \<Longrightarrow> unat sz \<le> length buf \<Longrightarrow> e \<noteq> OutOfBounds"
proof -
  let ?p = "dropWhile (\<lambda>c. c = CHR ''/'') path0"
  obtain r1 s1 where m: "u_mkdir_p (dirname ?p) 511 s = (r1, s1)" by (meson surj_pair)
  note e1 = u_mkdir_p_extends [OF m]
  have keep1: "lookup s1 q = lookup s q" if n: "\<not> strict_prefix (cwd s) q" for q
  proof (cases "lookup s q")
    case None
    with e1 n have "lookup s1 q = None" unfolding extends_def by blast
    with None show ?thesis by simp
  next
    case (Some i)
    with e1 show ?thesis unfolding extends_def by simp
  qed
  have goal: "stdout s' = stdout s \<and> umask s' = umask s \<and> now s' = now s
      \<and> refuse s' = refuse s
      \<and> (\<forall>q. \<not> strict_prefix (cwd s) q \<longrightarrow> lookup s' q = lookup s q)
      \<and> (\<forall>q. is_dir s q \<longrightarrow> is_dir s' q)
      \<and> (\<forall>u. r = Inr u \<longrightarrow> cwd s' = cwd s)
      \<and> (\<forall>e. r = Inl e \<longrightarrow> e \<in> {EmptyPath, AbsolutePath, DotPath, DotDotPath, MkdirFailed,
            DirectoryConflict, IndeterminateStat, FopenFailed, OutOfBounds})
      \<and> (\<forall>e. r = Inl e \<longrightarrow> unat sz \<le> length buf \<longrightarrow> e \<noteq> OutOfBounds)"
  proof (cases r1)
    case (Inl e)
    with run m have "r = Inl e" "s' = s1"
      unfolding save_buf_def mkdir_p_fn_def Let_def by simp_all
    moreover from m Inl u_mkdir_p_failures have
      "e \<in> {EmptyPath, AbsolutePath, DotPath, DotDotPath, MkdirFailed, DirectoryConflict,
        IndeterminateStat}" by blast
    ultimately show ?thesis using e1 keep1 extends_is_dir [OF e1]
      by (auto simp: extends_def)
  next
    case (Inr u1)
    with m have m': "u_mkdir_p (dirname ?p) 511 s = (Inr u1, s1)" by simp
    note k = u_mkdir_p_Inr [OF m']
    show ?thesis
    proof (cases "sys_fopen_w s1 ?p")
      case (Inl e)
      with run m Inr have "r = Inl FopenFailed" "s' = s1"
        unfolding save_buf_def mkdir_p_fn_def Let_def by simp_all
      then show ?thesis using e1 keep1 extends_is_dir [OF e1]
        by (auto simp: extends_def)
    next
      case op0: (Inr fs2)
      obtain f s2 where op: "sys_fopen_w s1 ?p = Inr (f, s2)"
        using op0 by (cases fs2) simp
      note o = sys_fopen_w_Inr [OF op]
      from o(1) have "hd ?p \<noteq> CHR ''/''" by (rule hd_normalized)
      from opened_location [OF m' op this] have f: "f = cwd s @ names ?p" "names ?p \<noteq> []" .
      then have fp: "strict_prefix (cwd s) f" by (simp add: strict_prefix_def)
      have stay: "stdout s'' = stdout s \<and> umask s'' = umask s \<and> now s'' = now s
        \<and> refuse s'' = refuse s
        \<and> (\<forall>q. \<not> strict_prefix (cwd s) q \<longrightarrow> lookup s'' q = lookup s q)
        \<and> (\<forall>q. is_dir s q \<longrightarrow> is_dir s'' q) \<and> cwd s'' = cwd s"
        if sb: "same_but f s1 s''" for s''
      proof -
        have "lookup s'' q = lookup s q" if n: "\<not> strict_prefix (cwd s) q" for q
        proof -
          from n fp have "q \<noteq> f" by auto
          with sb keep1 [OF n] show ?thesis by (simp add: same_but_def)
        qed
        moreover have "is_dir s'' q" if "is_dir s q" for q
          using sb o(7) extends_is_dir [OF e1 that] by (rule same_but_dirs)
        ultimately show ?thesis using sb e1 k by (simp add: same_but_def extends_def)
      qed
      show ?thesis
      proof (cases "length buf < unat sz")
        case True
        with run m Inr op have "r = Inl OutOfBounds" "s' = s2"
          unfolding save_buf_def mkdir_p_fn_def Let_def by simp_all
        with stay [OF o(8)] True show ?thesis by simp
      next
        case False
        with run m Inr op have r: "r = Inr ()"
          unfolding save_buf_def mkdir_p_fn_def Let_def by simp
        with run have "save_buf path0 buf sz mode time s = (Inr (), s')" by simp
        from save_buf_Inr [OF this] m' op have "same_but f s1 s'" by auto
        from stay [OF this] r show ?thesis by simp
      qed
    qed
  qed
  from goal show "stdout s' = stdout s" and "umask s' = umask s" and "now s' = now s"
    and "refuse s' = refuse s"
    and "\<And>q. \<not> strict_prefix (cwd s) q \<Longrightarrow> lookup s' q = lookup s q"
    and "\<And>q. is_dir s q \<Longrightarrow> is_dir s' q"
    and "\<And>u. r = Inr u \<Longrightarrow> cwd s' = cwd s"
    and "\<And>e. r = Inl e \<Longrightarrow> e \<in> {EmptyPath, AbsolutePath, DotPath, DotDotPath, MkdirFailed,
            DirectoryConflict, IndeterminateStat, FopenFailed, OutOfBounds}"
    and "\<And>e. r = Inl e \<Longrightarrow> unat sz \<le> length buf \<Longrightarrow> e \<noteq> OutOfBounds"
    by blast+
qed

subsection \<open>The working directory\<close>

lemma process_mem_loop_cases:
  assumes run: "process_mem_loop mem sz s = (r, s')"
  obtains (finished) "sz = 0" "r = Inr (mem, sz)" "s' = s"
  | (abort) e where "0 < sz" "process_buf mem sz s = (Inl e, s')" "r = Inl e"
  | (step) len s1 where "0 < sz" "process_buf mem sz s = (Inr len, s1)"
      "process_mem_loop (drop (unat len) mem) (sz - len) s1 = (r, s')"
      "unat (sz - len) < unat sz"
proof (cases "0 < sz")
  case False
  with run have "r = Inr (mem, sz)" "s' = s"
    by (subst (asm) process_mem_loop.simps, simp)+
  with False show thesis using finished by (simp add: word_gt_0)
next
  case True
  obtain r1 s1 where pb: "process_buf mem sz s = (r1, s1)" by (meson surj_pair)
  show thesis
  proof (cases r1)
    case (Inl e)
    with run True pb have "r = Inl e" "s' = s1"
      by (subst (asm) process_mem_loop.simps, simp)+
    with True pb Inl show thesis using abort by simp
  next
    case (Inr len)
    with run True pb have "process_mem_loop (drop (unat len) mem) (sz - len) s1 = (r, s')"
      by (subst (asm) process_mem_loop.simps) simp
    moreover from process_buf_Inr_unat [of mem sz s len s1] pb Inr
    have "unat (sz - len) < unat sz"
      by (simp add: unat_sub_if' word_le_nat_alt)
    ultimately show thesis using True pb Inr step by simp
  qed
qed

lemma process_buf_frame:
  assumes "process_buf buf count s = (Inr len, s')"
  shows "cwd s' = cwd s" and "\<And>q. is_dir s q \<Longrightarrow> is_dir s' q"
proof -
  from process_buf_Inr [OF assms] obtain pt :: fwpart where
    sv: "save_buf (fw_path pt) (drop sizeof_fwpart (take (unat count) buf)) (fw_size pt)
           (fw_mode pt) (fw_time pt) (s\<lparr>stdout := stdout s @ [pt]\<rparr>) = (Inr (), s')"
    by blast
  from save_buf_frame(7) [OF sv] show "cwd s' = cwd s" by simp
  have "is_dir (s\<lparr>stdout := stdout s @ [pt]\<rparr>) q = is_dir s q" for q
    by (simp add: is_dir_def lookup_def)
  then show "is_dir s' q" if "is_dir s q" for q
    using save_buf_frame(6) [OF sv, of q] that by simp
qed

lemma process_mem_loop_cwd:
  "process_mem_loop mem sz s = (Inr r, s') \<Longrightarrow> cwd s' = cwd s"
proof (induction sz arbitrary: mem s rule: measure_induct_rule [of unat])
  case (less sz)
  from less.prems show ?case
  proof (cases rule: process_mem_loop_cases)
    case finished
    then show ?thesis by simp
  next
    case (abort e)
    then show ?thesis by simp
  next
    case (step len s1)
    from less.IH [OF step(4) step(3)] process_buf_frame(1) [OF step(2)]
    show ?thesis by simp
  qed
qed

text \<open>
  C9. Directory creation that returns leaves the working directory where it was, and
  every level of the directory part of the path is then a directory below it (each
  was created or found in the directory entered before it). So does the extraction of
  a record, and so does the whole loop: every record is resolved from the same
  directory.
\<close>

theorem working_directory_restored:
  "(mkdir_p_fn path mode s = (Inr u, s1) \<longrightarrow>
      cwd s1 = cwd s \<and> dir_chain s1 (cwd s) (names (dirname path)))
   \<and> (process_buf buf count s = (Inr len, s2) \<longrightarrow> cwd s2 = cwd s)
   \<and> (process_mem_loop mem sz s = (Inr r, s3) \<longrightarrow> cwd s3 = cwd s)"
  using u_mkdir_p_Inr [of "dirname path" mode s u s1] process_buf_frame(1) [of buf count s len s2]
    process_mem_loop_cwd [of mem sz s r s3]
  by (simp add: mkdir_p_fn_def)

subsection \<open>The extracted file\<close>

text \<open>
  What \<^verbatim>\<open>save_buf\<close> leaves behind when the payload fits the space that is free (in this
  file system \<^verbatim>\<open>chmod\<close> and \<^verbatim>\<open>utime\<close> cannot fail on the file just opened): the path of
  the record, without its leading slashes, names a regular file below the working
  directory with the \<open>size\<close> bytes behind the header, the permission bits of the decoded
  mode and the decoded time.
\<close>

lemma complete_write_file:
  assumes run: "process_buf buf count s = (Inr len, s')"
    and pt: "parse_fields (take (unat count) buf) = Inr pt"
    and room: "unat (fw_size pt) \<le> free_space s"
  shows "\<exists>i. sys_stat s' (dropWhile (\<lambda>c. c = CHR ''/'') (fw_path pt)) = Inr i
           \<and> lookup s' (cwd s @ names (fw_path pt)) = Some i
           \<and> i_kind i = Regular
           \<and> i_data i = take (unat (fw_size pt)) (drop sizeof_fwpart buf)
           \<and> i_perm i = fw_mode pt AND 4095
           \<and> i_atime i = fw_time pt \<and> i_mtime i = fw_time pt"
proof -
  let ?p = "dropWhile (\<lambda>c. c = CHR ''/'') (fw_path pt)"
  let ?s0 = "s\<lparr>stdout := stdout s @ [pt]\<rparr>"
  let ?payload = "drop sizeof_fwpart (take (unat count) buf)"
  from process_buf_Inr [OF run] pt have
    fit: "sizeof_fwpart + unat (fw_size pt) \<le> unat count" and
    sv: "save_buf (fw_path pt) ?payload (fw_size pt) (fw_mode pt) (fw_time pt) ?s0 = (Inr (), s')"
    by auto
  from save_buf_Inr [OF sv] obtain s1 f s2 i where
    mk: "u_mkdir_p (dirname ?p) 511 ?s0 = (Inr (), s1)" and
    op: "sys_fopen_w s1 ?p = Inr (f, s2)" and
    rs: "resolve s' ?p = Inr f" and
    i: "lookup s' f = Some i" "i_kind i = Regular" "i_perm i = fw_mode pt AND 4095"
       "i_data i = take (min (unat (fw_size pt)) (free_space s2)) ?payload"
       "i_atime i = fw_time pt" "i_mtime i = fw_time pt"
    by blast
  from u_mkdir_p_extends [OF mk] have "free_space s1 = free_space s"
    by (simp add: extends_def)
  with sys_fopen_w_Inr(9) [OF op] room have "unat (fw_size pt) \<le> free_space s2" by simp
  then have "i_data i = take (unat (fw_size pt)) ?payload"
    using i(4) by (simp add: min_def)
  also have "\<dots> = take (unat (fw_size pt)) (drop sizeof_fwpart buf)"
    using fit by (simp add: drop_take min_def)
  finally have data: "i_data i = take (unat (fw_size pt)) (drop sizeof_fwpart buf)" .
  from sys_fopen_w_Inr(1) [OF op] have "hd ?p \<noteq> CHR ''/''" by (rule hd_normalized)
  from opened_location(1) [OF mk op this] have f: "f = cwd s @ names (fw_path pt)" by simp
  from rs i(1) have "sys_stat s' ?p = Inr i" by (simp add: sys_stat_def)
  with i data f show ?thesis by blast
qed

text \<open>
  C6. \<^verbatim>\<open>process_buf\<close> returns for a record whether or not \<^verbatim>\<open>fwrite\<close> wrote the payload:
  its result is not looked at (line 128). With room for 4 bytes only, the record of
  \<^const>\<open>arch_hello\<close> is processed, the length \<open>256 + size\<close> is returned, and \<^verbatim>\<open>stat\<close> of
  its path gives a regular file with the decoded mode and time whose content is
  \<open>hell\<close>, not the 11 bytes of the payload.
\<close>

theorem short_file_reported_written:
  "\<exists>pt i. parse_fields arch_hello = Inr pt
      \<and> fst (process_buf arch_hello 267 fs_full) = Inr (of_nat sizeof_fwpart + fw_size pt)
      \<and> take (unat (fw_size pt)) (drop sizeof_fwpart arch_hello) = ''hello world''
      \<and> sys_stat (snd (process_buf arch_hello 267 fs_full)) (fw_path pt) = Inr i
      \<and> i_kind i = Regular \<and> i_data i = ''hell''
      \<and> i_data i \<noteq> take (unat (fw_size pt)) (drop sizeof_fwpart arch_hello)
      \<and> i_perm i = fw_mode pt AND 4095 \<and> i_atime i = fw_time pt \<and> i_mtime i = fw_time pt"
proof -
  have "sys_stat (snd (process_buf arch_hello 267 fs_full)) ''d/f''
        = Inr \<lparr>i_kind = Regular, i_perm = 420, i_data = ''hell'', i_atime = 77, i_mtime = 77\<rparr>"
    by (simp add: process_buf_arch_hello_full sys_stat_def resolve_def start_dir_def lookup_def
        root_inode_def NAME_MAX_def
        split del: if_split cong: prod.case_cong_weak sum.case_cong_weak option.case_cong_weak
          list.case_cong_weak if_weak_cong)
  then show ?thesis
    by (simp add: parse_arch_hello process_buf_arch_hello_full sizeof_fwpart_256 payload_arch_hello)
qed

subsection \<open>Leading slashes\<close>

lemma dropWhile_replicate_slash [simp]:
  "dropWhile (\<lambda>c. c = CHR ''/'') (replicate n (CHR ''/'') @ p) = dropWhile (\<lambda>c. c = CHR ''/'') p"
  by (induction n) simp_all

text \<open>
  C3. Leading slashes make no difference to \<^verbatim>\<open>save_buf\<close>. However the call ends, no
  entry outside the working directory is created or changed, and when it returns the
  file is the entry at the names of the path, taken from the working directory: an
  absolute path is extracted as a relative one.
\<close>

theorem leading_slashes_stripped:
  assumes run: "save_buf path buf sz mode time s = (r, s')"
  shows "save_buf (replicate n (CHR ''/'') @ path) buf sz mode time s = (r, s')
       \<and> (\<forall>q. \<not> strict_prefix (cwd s) q \<longrightarrow> lookup s' q = lookup s q)
       \<and> (\<forall>u. r = Inr u \<longrightarrow>
            (\<exists>i. lookup s' (cwd s @ names path) = Some i \<and> i_kind i = Regular)
            \<and> strict_prefix (cwd s) (cwd s @ names path))"
proof -
  have a: "save_buf (replicate n (CHR ''/'') @ path) buf sz mode time s = (r, s')"
    using run by (simp add: save_buf_def)
  have b: "\<forall>q. \<not> strict_prefix (cwd s) q \<longrightarrow> lookup s' q = lookup s q"
    using save_buf_frame(5) [OF run] by blast
  have c: "(\<exists>i. lookup s' (cwd s @ names path) = Some i \<and> i_kind i = Regular)
            \<and> strict_prefix (cwd s) (cwd s @ names path)" if r: "r = Inr u" for u
  proof -
    let ?p = "dropWhile (\<lambda>c. c = CHR ''/'') path"
    from run r have "save_buf path buf sz mode time s = (Inr u, s')" by simp
    from save_buf_Inr [OF this] obtain s1 f s2 i where
      mk: "u_mkdir_p (dirname ?p) 511 s = (Inr (), s1)" and
      op: "sys_fopen_w s1 ?p = Inr (f, s2)" and
      i: "lookup s' f = Some i" "i_kind i = Regular"
      by blast
    from sys_fopen_w_Inr(1) [OF op] have "hd ?p \<noteq> CHR ''/''" by (rule hd_normalized)
    from opened_location [OF mk op this] have "f = cwd s @ names path" "names path \<noteq> []"
      by simp_all
    with i show ?thesis by (auto simp: strict_prefix_def)
  qed
  from a b c show ?thesis by blast
qed

subsection \<open>Components that exist already\<close>

lemma relative_first_component:
  "d \<noteq> [] \<Longrightarrow> hd d \<noteq> CHR ''/'' \<Longrightarrow> takeWhile (\<lambda>c. c \<noteq> CHR ''/'') d \<noteq> []"
  by (cases d) auto

lemma relative_rest:
  assumes "dropWhile (\<lambda>c. c = CHR ''/'') r \<noteq> []"
  shows "hd (dropWhile (\<lambda>c. c = CHR ''/'') r) \<noteq> CHR ''/''"
  using assms hd_dropWhile [of "\<lambda>c. c = CHR ''/''" r] by simp

lemma clean_rest:
  assumes c: "clean d" and ne: "dropWhile (\<lambda>c. c \<noteq> CHR ''/'') d \<noteq> []"
  shows "clean (dropWhile (\<lambda>c. c = CHR ''/'') (dropWhile (\<lambda>c. c \<noteq> CHR ''/'') d))"
proof -
  from takeWhile_dropWhile_slash [OF ne] obtain r where
    d: "d = takeWhile (\<lambda>c. c \<noteq> CHR ''/'') d @ CHR ''/'' # r"
    and dr: "dropWhile (\<lambda>c. c \<noteq> CHR ''/'') d = CHR ''/'' # r"
    by blast
  have "last d = last (CHR ''/'' # r)" by (subst d) simp
  with c have r: "r \<noteq> []" "last r \<noteq> CHR ''/''" by (auto simp: clean_def split: if_splits)
  let ?r' = "dropWhile (\<lambda>c. c = CHR ''/'') r"
  have ne': "?r' \<noteq> []"
  proof
    assume "?r' = []"
    then have "\<forall>x\<in>set r. x = CHR ''/''" by (simp add: dropWhile_eq_Nil_conv)
    with r show False using last_in_set by blast
  qed
  have "r = takeWhile (\<lambda>c. c = CHR ''/'') r @ ?r'" by simp
  then have "last r = last ?r'" using ne' by (metis last_appendR)
  with r ne' relative_rest [OF ne'] show ?thesis by (simp add: clean_def dr)
qed

lemma strip_trailing_last:
  "strip_trailing x \<noteq> [] \<Longrightarrow> last (strip_trailing x) \<noteq> CHR ''/''"
  unfolding strip_trailing_def
  using hd_dropWhile [of "\<lambda>c. c = CHR ''/''" "rev x"] by (simp add: last_rev)

lemma strip_trailing_hd:
  assumes "d \<noteq> []" "hd d \<noteq> CHR ''/''"
  shows "strip_trailing d \<noteq> [] \<and> hd (strip_trailing d) = hd d"
proof -
  from strip_trailing_decomp obtain k where k: "d = strip_trailing d @ replicate k (CHR ''/'')"
    by blast
  show ?thesis
  proof (cases "strip_trailing d = []")
    case True
    with k have "d = replicate k (CHR ''/'')" by simp
    with assms show ?thesis by (cases k) auto
  next
    case False
    with k show ?thesis by (metis hd_append2)
  qed
qed

lemma dirname_clean:
  assumes "CHR ''/'' \<in> set (strip_trailing p)" "hd p \<noteq> CHR ''/''"
  shows "clean (dirname p)"
proof -
  let ?p1 = "strip_trailing p"
  from assms(1) have p1: "?p1 \<noteq> []" by auto
  then have pne: "p \<noteq> []" by (auto simp: strip_trailing_def)
  from strip_trailing_hd [OF pne assms(2)] have h1: "hd ?p1 \<noteq> CHR ''/''" using assms(2) by simp
  from split_list_last [OF assms(1)] obtain d0 nm where
    s: "?p1 = d0 @ CHR ''/'' # nm" and nm: "CHR ''/'' \<notin> set nm" by blast
  from s h1 have d0: "d0 \<noteq> []" "hd d0 \<noteq> CHR ''/''" by (cases d0; simp)+
  have a: "dropWhile (\<lambda>c. c \<noteq> CHR ''/'') (rev nm @ CHR ''/'' # rev d0) = CHR ''/'' # rev d0"
    using nm by (subst dropWhile_append2) auto
  have b: "strip_trailing (d0 @ [CHR ''/'']) = strip_trailing d0"
    by (simp add: strip_trailing_def)
  note h = strip_trailing_hd [OF d0]
  have "dirname p = strip_trailing d0"
    unfolding dirname_def Let_def s using pne h by (simp add: a b)
  with h d0 strip_trailing_last [of d0] show ?thesis by (simp add: clean_def)
qed

lemma u_mkdir_existing_dir:
  assumes "proper c" "is_dir s (cwd s)" "is_dir s (cwd s @ [c])"
  shows "u_mkdir c mode s = (Inr (), s)"
  using assms unfolding proper_def
  by (subst u_mkdir_name) (auto simp: is_dir_lookup)

lemma u_mkdir_conflict:
  assumes "proper c" "is_dir s (cwd s)" "lookup s (cwd s @ [c]) = Some i" "i_kind i = Regular"
  shows "u_mkdir c mode s = (Inl DirectoryConflict, s)"
  using assms unfolding proper_def
  by (subst u_mkdir_name) (auto simp: is_dir_lookup)

lemma u_mkdir_p_fail:
  assumes "u_mkdir (takeWhile (\<lambda>c. c \<noteq> CHR ''/'') d) mode s = (Inl e, s1)"
  shows "u_mkdir_p d mode s = (Inl e, s1)"
  by (subst u_mkdir_p.simps) (simp add: assms Let_def)

lemma u_mkdir_p_leaf:
  assumes "u_mkdir (takeWhile (\<lambda>c. c \<noteq> CHR ''/'') d) mode s = (Inr (), s1)"
    and "dropWhile (\<lambda>c. c \<noteq> CHR ''/'') d = []"
  shows "u_mkdir_p d mode s = (Inr (), s1)"
  by (subst u_mkdir_p.simps) (simp only: assms Let_def prod.case sum.case if_True simp_thms)

lemma u_mkdir_p_enter:
  assumes p: "proper (takeWhile (\<lambda>c. c \<noteq> CHR ''/'') d)"
    and c: "is_dir s (cwd s)" and e: "is_dir s (cwd s @ [takeWhile (\<lambda>c. c \<noteq> CHR ''/'') d])"
    and ne: "dropWhile (\<lambda>c. c \<noteq> CHR ''/'') d \<noteq> []"
  shows "u_mkdir_p d mode s =
     (case u_mkdir_p (dropWhile (\<lambda>c. c = CHR ''/'') (dropWhile (\<lambda>c. c \<noteq> CHR ''/'') d)) mode
             (s\<lparr>cwd := cwd s @ [takeWhile (\<lambda>c. c \<noteq> CHR ''/'') d]\<rparr>) of
        (Inl e, s3) \<Rightarrow> (Inl e, s3)
      | (Inr u, s3) \<Rightarrow> (Inr (), sys_fchdir s3 (cwd s)))"
proof -
  note m = u_mkdir_existing_dir [OF p c e, of mode]
  note o = sys_open_dir_dot [OF c]
  note h = u_chdir_name [OF p c e]
  show ?thesis
    by (subst u_mkdir_p.simps)
      (simp only: Let_def m o h ne prod.case sum.case if_False simp_thms)
qed

lemma u_mkdir_p_existing:
  assumes "clean d" "list_all proper (names d)" "dir_chain s (cwd s) (names d)"
  shows "u_mkdir_p d mode s = (Inr (), s)"
  using assms
proof (induction d arbitrary: s rule: measure_induct_rule [of length])
  case (less d)
  let ?comp = "takeWhile (\<lambda>c. c \<noteq> CHR ''/'') d"
  let ?rest = "dropWhile (\<lambda>c. c \<noteq> CHR ''/'') d"
  let ?rest' = "dropWhile (\<lambda>c. c = CHR ''/'') ?rest"
  from less.prems(1) have "?comp \<noteq> []"
    by (simp add: clean_def relative_first_component)
  then have n: "names d = ?comp # names ?rest'" by (rule names_unfold)
  with less.prems have p: "proper ?comp" and ps: "list_all proper (names ?rest')"
    and c: "is_dir s (cwd s)" and ch: "dir_chain s (cwd s @ [?comp]) (names ?rest')"
    by simp_all
  from ch have e: "is_dir s (cwd s @ [?comp])" by (rule dir_chain_is_dir)
  show ?case
  proof (cases "?rest = []")
    case True
    from u_mkdir_existing_dir [OF p c e] True show ?thesis by (rule u_mkdir_p_leaf)
  next
    case False
    let ?s2 = "s\<lparr>cwd := cwd s @ [?comp]\<rparr>"
    have "dir_chain ?s2 (cwd s @ [?comp]) (names ?rest') = dir_chain s (cwd s @ [?comp]) (names ?rest')"
      by (rule dir_chain_nodes) simp
    with ch have ch2: "dir_chain ?s2 (cwd ?s2) (names ?rest')" by simp
    have "u_mkdir_p ?rest' mode ?s2 = (Inr (), ?s2)"
      using u_mkdir_p_rest_shorter [OF False] clean_rest [OF less.prems(1) False] ps ch2
      by (rule less.IH)
    with c show ?thesis
      unfolding u_mkdir_p_enter [OF p c e False] by (simp add: sys_fchdir_dir)
  qed
qed

lemma u_mkdir_p_conflict:
  assumes "d \<noteq> []" "hd d \<noteq> CHR ''/''" "k < length (names d)"
    and "list_all proper (take (Suc k) (names d))"
    and "dir_chain s (cwd s) (take k (names d))"
    and "lookup s (cwd s @ take (Suc k) (names d)) = Some i" "i_kind i = Regular"
  shows "\<exists>s'. u_mkdir_p d mode s = (Inl DirectoryConflict, s') \<and> nodes s' = nodes s"
  using assms
proof (induction k arbitrary: d s)
  case 0
  let ?comp = "takeWhile (\<lambda>c. c \<noteq> CHR ''/'') d"
  from 0(1,2) have "?comp \<noteq> []" by (rule relative_first_component)
  then have n: "names d = ?comp # names (dropWhile (\<lambda>c. c = CHR ''/'') (dropWhile (\<lambda>c. c \<noteq> CHR ''/'') d))"
    by (rule names_unfold)
  with 0 have "proper ?comp" "is_dir s (cwd s)" "lookup s (cwd s @ [?comp]) = Some i"
    by simp_all
  from u_mkdir_conflict [OF this 0(7)] have "u_mkdir_p d mode s = (Inl DirectoryConflict, s)"
    by (rule u_mkdir_p_fail)
  then show ?case by simp
next
  case (Suc j)
  let ?comp = "takeWhile (\<lambda>c. c \<noteq> CHR ''/'') d"
  let ?rest = "dropWhile (\<lambda>c. c \<noteq> CHR ''/'') d"
  let ?rest' = "dropWhile (\<lambda>c. c = CHR ''/'') ?rest"
  let ?s2 = "s\<lparr>cwd := cwd s @ [?comp]\<rparr>"
  from Suc(2,3) have "?comp \<noteq> []" by (rule relative_first_component)
  then have n: "names d = ?comp # names ?rest'" by (rule names_unfold)
  with Suc.prems have p: "proper ?comp" and j: "j < length (names ?rest')"
    and ps: "list_all proper (take (Suc j) (names ?rest'))"
    and c: "is_dir s (cwd s)" and ch: "dir_chain s (cwd s @ [?comp]) (take j (names ?rest'))"
    and l: "lookup s (cwd s @ ?comp # take (Suc j) (names ?rest')) = Some i"
    by simp_all
  from ch have e: "is_dir s (cwd s @ [?comp])" by (rule dir_chain_is_dir)
  have r': "?rest' \<noteq> []"
  proof
    assume "?rest' = []"
    then have "names ?rest' = []" by (simp only: names_Nil)
    with j show False by simp
  qed
  have ne: "?rest \<noteq> []"
  proof
    assume "?rest = []"
    then have "?rest' = []" by (simp only: dropWhile.simps)
    with r' show False by (simp only:)
  qed
  have "dir_chain ?s2 (cwd s @ [?comp]) (take j (names ?rest'))
        = dir_chain s (cwd s @ [?comp]) (take j (names ?rest'))"
    by (rule dir_chain_nodes) simp
  with ch have ch2: "dir_chain ?s2 (cwd ?s2) (take j (names ?rest'))"
    by simp
  have l2: "lookup ?s2 (cwd ?s2 @ take (Suc j) (names ?rest')) = Some i"
    using l by simp
  from Suc.IH [OF r' relative_rest [OF r'] j ps ch2 l2 Suc.prems(7)]
  obtain s3 where "u_mkdir_p ?rest' mode ?s2 = (Inl DirectoryConflict, s3)" "nodes s3 = nodes s"
    by auto
  then show ?case
    unfolding u_mkdir_p_enter [OF p c e ne] by simp
qed

lemma strip_trailing_Nil [simp]: "strip_trailing [] = []"
  by (simp add: strip_trailing_def)

lemma dirname_shape:
  "clean (dirname (dropWhile (\<lambda>c. c = CHR ''/'') path0))
   \<or> dirname (dropWhile (\<lambda>c. c = CHR ''/'') path0) = ''.''"
proof -
  let ?p = "dropWhile (\<lambda>c. c = CHR ''/'') path0"
  show ?thesis
  proof (cases "?p = []")
    case True
    have "dirname [] = ''.''" by (simp add: dirname_def)
    with True show ?thesis by (simp only:) simp
  next
    case ne: False
    then have h: "hd ?p \<noteq> CHR ''/''" by (rule hd_normalized)
    show ?thesis
    proof (cases "CHR ''/'' \<in> set (strip_trailing ?p)")
      case True
      from dirname_clean [OF True h] show ?thesis by (rule disjI1)
    next
      case False
      from strip_trailing_hd [OF ne h] have st: "strip_trailing ?p \<noteq> []" by (rule conjunct1)
      have "dirname ?p = ''.''"
        unfolding dirname_def Let_def
        by (simp only: ne st False if_False if_True simp_thms)
      then show ?thesis by (rule disjI2)
    qed
  qed
qed

lemma names_dot: "names ''.'' = [''.'']"
  by (simp add: names_def)

lemma not_proper_dot: "\<not> proper ''.''"
  by (simp add: proper_def)

lemma dirname_clean_of_proper:
  assumes "ns = names (dirname (dropWhile (\<lambda>c. c = CHR ''/'') path0))"
    and "k < length ns" and "list_all proper (take (Suc k) ns)"
  shows "clean (dirname (dropWhile (\<lambda>c. c = CHR ''/'') path0))"
proof (rule ccontr)
  assume "\<not> clean (dirname (dropWhile (\<lambda>c. c = CHR ''/'') path0))"
  with dirname_shape [of path0] have "dirname (dropWhile (\<lambda>c. c = CHR ''/'') path0) = ''.''"
    by blast
  with assms(1) have n: "ns = [''.'']" by (simp only: names_dot)
  with assms(2) have "k = 0" by simp
  with assms(3) n not_proper_dot show False by simp
qed

text \<open>
  C4. Let \<open>ns\<close> be the names of the directory part of the path. If the levels above
  component \<open>k\<close> are directories and component \<open>k\<close> is an entry that is not a directory,
  \<^verbatim>\<open>save_buf\<close> stops at the assertion of line 77 and no entry has been replaced or
  changed. If every level is a directory already, directory creation returns and the
  file system is exactly as before: nothing is created again.
\<close>

theorem directory_conflict:
  assumes ns: "ns = names (dirname (dropWhile (\<lambda>c. c = CHR ''/'') path0))"
  shows "(k < length ns \<and> list_all proper (take (Suc k) ns)
            \<and> dir_chain s (cwd s) (take k ns)
            \<and> lookup s (cwd s @ take (Suc k) ns) = Some i \<and> i_kind i = Regular
          \<longrightarrow> (\<exists>s'. save_buf path0 buf sz mode time s = (Inl DirectoryConflict, s')
                    \<and> nodes s' = nodes s))
       \<and> (ns \<noteq> [] \<and> list_all proper ns \<and> dir_chain s (cwd s) ns
          \<longrightarrow> mkdir_p_fn (dropWhile (\<lambda>c. c = CHR ''/'') path0) 511 s = (Inr (), s))"
proof -
  let ?p = "dropWhile (\<lambda>c. c = CHR ''/'') path0"
  have a: "\<exists>s'. save_buf path0 buf sz mode time s = (Inl DirectoryConflict, s')
             \<and> nodes s' = nodes s"
    if h: "k < length ns" "list_all proper (take (Suc k) ns)" "dir_chain s (cwd s) (take k ns)"
      "lookup s (cwd s @ take (Suc k) ns) = Some i" "i_kind i = Regular"
  proof -
    from dirname_clean_of_proper [OF ns h(1,2)]
    have "dirname ?p \<noteq> []" "hd (dirname ?p) \<noteq> CHR ''/''"
      unfolding clean_def by blast+
    from u_mkdir_p_conflict [OF this h(1) [unfolded ns] h(2) [unfolded ns] h(3) [unfolded ns]
        h(4) [unfolded ns] h(5), of 511]
    obtain s' where "u_mkdir_p (dirname ?p) 511 s = (Inl DirectoryConflict, s')"
      "nodes s' = nodes s" by blast
    then have "save_buf path0 buf sz mode time s = (Inl DirectoryConflict, s')
      \<and> nodes s' = nodes s"
      unfolding save_buf_def mkdir_p_fn_def Let_def by simp
    then show ?thesis by blast
  qed
  have b: "mkdir_p_fn ?p 511 s = (Inr (), s)"
    if h: "ns \<noteq> []" "list_all proper ns" "dir_chain s (cwd s) ns"
  proof -
    from h(1) have "0 < length ns" by simp
    moreover from h(1,2) have "list_all proper (take (Suc 0) ns)" by (cases ns) simp_all
    ultimately have "clean (dirname ?p)" by (rule dirname_clean_of_proper [OF ns])
    then show ?thesis unfolding mkdir_p_fn_def
      using h(2,3) unfolding ns by (rule u_mkdir_p_existing)
  qed
  from a b show ?thesis by blast
qed

subsection \<open>Framing\<close>

lemma well_formed_cases:
  assumes "well_formed buf" "buf \<noteq> []"
  obtains pt where "sizeof_fwpart \<le> length buf" "parse_fields buf = Inr pt"
    "total_length pt \<le> length buf" "well_formed (drop (total_length pt) buf)"
    "records_of buf = pt # records_of (drop (total_length pt) buf)"
proof -
  from assms have a: "\<not> length buf < sizeof_fwpart"
    by (subst (asm) well_formed.simps) (simp split: if_splits)
  from assms a obtain pt where pt: "parse_fields buf = Inr pt"
    by (subst (asm) well_formed.simps) (cases "parse_fields buf"; simp)
  from assms a pt have b: "\<not> length buf < sizeof_fwpart + unat (fw_size pt)"
    and c: "well_formed (drop (sizeof_fwpart + unat (fw_size pt)) buf)"
    by (subst (asm) well_formed.simps, simp split: if_splits)+
  have "records_of buf = pt # records_of (drop (total_length pt) buf)"
    using assms(2) pt by (subst records_of.simps) (simp add: total_length_def)
  with a pt b c show thesis using that by (simp add: total_length_def)
qed

lemma sum_total_length:
  "well_formed buf \<Longrightarrow> sum_list (map total_length (records_of buf)) = length buf"
proof (induction buf rule: measure_induct_rule [of length])
  case (less buf)
  show ?case
  proof (cases "buf = []")
    case True
    then show ?thesis by (subst records_of.simps) simp
  next
    case False
    from less.prems False obtain pt where
      w: "total_length pt \<le> length buf" "well_formed (drop (total_length pt) buf)"
        "records_of buf = pt # records_of (drop (total_length pt) buf)"
      by (rule well_formed_cases)
    have "0 < total_length pt" by (simp add: total_length_def sizeof_fwpart_256)
    with False have "length (drop (total_length pt) buf) < length buf" by simp
    from less.IH [OF this w(2)] w(1,3) show ?thesis by simp
  qed
qed

lemma unat_of_nat_64: "n < 2 ^ 64 \<Longrightarrow> unat (of_nat n :: size_t) = n"
  by (simp add: unat_of_nat)

text \<open>\<^verbatim>\<open>process_buf\<close> on the first record of a well-formed buffer.\<close>

lemma process_buf_well_formed:
  assumes pt: "parse_fields buf = Inr pt" and hdr: "sizeof_fwpart \<le> length buf"
    and fit: "total_length pt \<le> length buf" and len: "length buf < 2 ^ 64"
  shows "process_buf buf (of_nat (length buf)) s =
     (case save_buf (fw_path pt) (drop sizeof_fwpart buf) (fw_size pt) (fw_mode pt) (fw_time pt)
             (s\<lparr>stdout := stdout s @ [pt]\<rparr>) of
        (Inl e, s2) \<Rightarrow> (Inl e, s2)
      | (Inr u, s2) \<Rightarrow> (Inr (of_nat (total_length pt)), s2))"
    and "unat (of_nat (total_length pt) :: size_t) = total_length pt"
proof -
  have u: "unat (of_nat (length buf) :: size_t) = length buf"
    using len by (rule unat_of_nat_64)
  have t: "take (unat (of_nat (length buf) :: size_t)) buf = buf"
    by (simp add: u)
  from fit len have tl: "total_length pt < 2 ^ 64" by simp
  then show ut: "unat (of_nat (total_length pt) :: size_t) = total_length pt"
    by (rule unat_of_nat_64)
  have sum: "(of_nat sizeof_fwpart + fw_size pt :: size_t) = of_nat (total_length pt)"
    by (simp add: total_length_def)
  have h1: "\<not> (of_nat (length buf) :: size_t) < of_nat sizeof_fwpart"
    using hdr len by (simp add: word_less_nat_alt u unat_of_nat_64 sizeof_fwpart_256)
  have h2: "\<not> (of_nat (length buf) :: size_t) < of_nat (total_length pt)"
    using fit by (simp add: word_less_nat_alt u ut)
  show "process_buf buf (of_nat (length buf)) s =
     (case save_buf (fw_path pt) (drop sizeof_fwpart buf) (fw_size pt) (fw_mode pt) (fw_time pt)
             (s\<lparr>stdout := stdout s @ [pt]\<rparr>) of
        (Inl e, s2) \<Rightarrow> (Inl e, s2)
      | (Inr u, s2) \<Rightarrow> (Inr (of_nat (total_length pt)), s2))"
    unfolding process_buf_def Let_def t
    by (simp only: h1 h2 pt sum sum.case if_False)
qed

lemma framing_loop:
  assumes "well_formed buf" and "length buf < 2 ^ 64"
    and "process_mem_loop buf (of_nat (length buf)) s = (r, s')"
  shows "(\<exists>e. r = Inl e \<and> e \<in> {EmptyPath, AbsolutePath, DotPath, DotDotPath, MkdirFailed,
                                  DirectoryConflict, IndeterminateStat, FopenFailed})
       \<or> (r = Inr ([], 0) \<and> stdout s' = stdout s @ records_of buf)"
  using assms
proof (induction buf arbitrary: s rule: measure_induct_rule [of length])
  case (less buf)
  note len = less.prems(2)
  have u: "unat (of_nat (length buf) :: size_t) = length buf"
    using len by (rule unat_of_nat_64)
  show ?case
  proof (cases "buf = []")
    case True
    with less.prems(3) have "r = Inr ([], 0)" "s' = s"
      by (subst (asm) process_mem_loop.simps, simp)+
    moreover have "records_of [] = []" by (subst records_of.simps) simp
    ultimately show ?thesis using True by simp
  next
    case False
    from less.prems(1) False obtain pt where
      hdr: "sizeof_fwpart \<le> length buf" and pt: "parse_fields buf = Inr pt" and
      fit: "total_length pt \<le> length buf" and wf': "well_formed (drop (total_length pt) buf)" and
      rec: "records_of buf = pt # records_of (drop (total_length pt) buf)"
      by (rule well_formed_cases)
    note pb = process_buf_well_formed(1) [OF pt hdr fit len, of s]
      process_buf_well_formed(2) [OF pt hdr fit len]
    let ?s0 = "s\<lparr>stdout := stdout s @ [pt]\<rparr>"
    obtain r1 s1 where sv: "save_buf (fw_path pt) (drop sizeof_fwpart buf) (fw_size pt)
        (fw_mode pt) (fw_time pt) ?s0 = (r1, s1)" by (meson surj_pair)
    have pos: "0 < (of_nat (length buf) :: size_t)"
      using False u by (simp add: word_less_nat_alt)
    show ?thesis
    proof (cases r1)
      case (Inl e)
      with pb(1) sv have "process_buf buf (of_nat (length buf)) s = (Inl e, s1)" by simp
      with less.prems(3) pos have r: "r = Inl e"
        by (subst (asm) process_mem_loop.simps) simp
      have "unat (fw_size pt) \<le> length (drop sizeof_fwpart buf)"
        using fit by (simp add: total_length_def)
      with save_buf_frame(8,9) [OF sv Inl] have
        "e \<in> {EmptyPath, AbsolutePath, DotPath, DotDotPath, MkdirFailed,
              DirectoryConflict, IndeterminateStat, FopenFailed}"
        by auto
      with r show ?thesis by simp
    next
      case (Inr u1)
      with pb(1) sv have
        "process_buf buf (of_nat (length buf)) s = (Inr (of_nat (total_length pt)), s1)"
        by simp
      with less.prems(3) pos pb(2) have
        "process_mem_loop (drop (total_length pt) buf)
           (of_nat (length buf) - of_nat (total_length pt)) s1 = (r, s')"
        by (subst (asm) process_mem_loop.simps) simp
      moreover have "(of_nat (length buf) - of_nat (total_length pt) :: size_t)
          = of_nat (length (drop (total_length pt) buf))"
        using fit by (simp add: of_nat_diff)
      ultimately have run': "process_mem_loop (drop (total_length pt) buf)
           (of_nat (length (drop (total_length pt) buf))) s1 = (r, s')"
        by simp
      have "0 < total_length pt" by (simp add: total_length_def sizeof_fwpart_256)
      with False have sh: "length (drop (total_length pt) buf) < length buf" by simp
      with len have len': "length (drop (total_length pt) buf) < 2 ^ 64" by simp
      from save_buf_frame(1) [OF sv] have st: "stdout s1 = stdout s @ [pt]" by simp
      from less.IH [OF sh wf' len' run'] st rec show ?thesis by auto
    qed
  qed
qed

text \<open>
  C1, as it holds. On a well-formed buffer the loop never stops at a framing assertion.
  It either stops inside the materialization of a record (an assertion of \<^verbatim>\<open>_mkdir\<close> or
  the one behind \<^verbatim>\<open>fopen\<close>), or it returns with no byte left, having taken the records
  back to back, each \<open>256 + size\<close> bytes long, the lengths adding up to the length of
  the buffer (\<open>stdout\<close> lists the records in the order they were taken).
\<close>

theorem framing_exact:
  assumes "well_formed buf" and "length buf < 2 ^ 64"
    and "process_mem_loop buf (of_nat (length buf)) s = (r, s')"
  shows "(\<exists>e. r = Inl e \<and> e \<in> {EmptyPath, AbsolutePath, DotPath, DotDotPath, MkdirFailed,
                                  DirectoryConflict, IndeterminateStat, FopenFailed})
       \<or> (r = Inr ([], 0) \<and> stdout s' = stdout s @ records_of buf
           \<and> sum_list (map total_length (records_of buf)) = length buf)"
  using framing_loop [OF assms] sum_total_length [OF assms(1)] by blast

subsection \<open>The theorems on concrete inputs\<close>

text \<open>\<open>/etc/passwd\<close>, extracted in \<open>/tmp\<close>, is written to \<open>/tmp/etc/passwd\<close>.\<close>

theorem leading_slashes_stripped_witness:
  "fst (save_buf ''/etc/passwd'' ''root'' 4 420 77 fs_tmp) = Inr ()
   \<and> save_buf ''///etc/passwd'' ''root'' 4 420 77 fs_tmp
       = save_buf ''/etc/passwd'' ''root'' 4 420 77 fs_tmp
   \<and> lookup (snd (save_buf ''/etc/passwd'' ''root'' 4 420 77 fs_tmp)) [''etc'', ''passwd''] = None
   \<and> (\<exists>i. lookup (snd (save_buf ''/etc/passwd'' ''root'' 4 420 77 fs_tmp))
             [''tmp'', ''etc'', ''passwd''] = Some i \<and> i_kind i = Regular)"
proof -
  let ?X = "save_buf ''/etc/passwd'' ''root'' 4 420 77 fs_tmp"
  have r: "fst ?X = Inr ()"
    by (simp add: fs_eval fs_tmp_def fs0_def dir_inode_def
        split del: if_split cong: prod.case_cong_weak sum.case_cong_weak option.case_cong_weak
          list.case_cong_weak if_weak_cong)
  have n: "names ''/etc/passwd'' = [''etc'', ''passwd'']"
    by (simp add: names_def)
  have c: "cwd fs_tmp = [''tmp'']" "lookup fs_tmp [''etc'', ''passwd''] = None"
    by (simp_all add: fs_tmp_def fs0_def lookup_def)
  from leading_slashes_stripped [where path = "''/etc/passwd''" and buf = "''root''" and sz = 4
      and mode = 420 and time = 77 and s = fs_tmp and n = 2, OF surjective_pairing]
  have "save_buf (replicate 2 (CHR ''/'') @ ''/etc/passwd'') ''root'' 4 420 77 fs_tmp = ?X"
    and "\<not> strict_prefix (cwd fs_tmp) [''etc'', ''passwd''] \<longrightarrow>
           lookup (snd ?X) [''etc'', ''passwd''] = lookup fs_tmp [''etc'', ''passwd'']"
    and "\<exists>i. lookup (snd ?X) (cwd fs_tmp @ names ''/etc/passwd'') = Some i \<and> i_kind i = Regular"
    using r by (auto simp: prod_eq_iff)
  with r n c show ?thesis
    by (simp add: numeral_2_eq_2)
qed

text \<open>
  \<open>a/b/file.bin\<close> where \<open>a/b\<close> is a regular file, and where \<open>a\<close> and \<open>a/b\<close> are
  directories.
\<close>

theorem directory_conflict_witness:
  "names (dirname (dropWhile (\<lambda>c. c = CHR ''/'') ''a/b/file.bin'')) = [''a'', ''b'']
   \<and> list_all proper [''a'', ''b'']
   \<and> dir_chain fs_file (cwd fs_file) [''a'']
   \<and> lookup fs_file (cwd fs_file @ [''a'', ''b'']) = Some file_inode
   \<and> i_kind file_inode = Regular
   \<and> fst (save_buf ''a/b/file.bin'' ''x'' 1 420 0 fs_file) = Inl DirectoryConflict
   \<and> nodes (snd (save_buf ''a/b/file.bin'' ''x'' 1 420 0 fs_file)) = nodes fs_file
   \<and> dir_chain fs_dirs (cwd fs_dirs) [''a'', ''b'']
   \<and> mkdir_p_fn ''a/b/file.bin'' 511 fs_dirs = (Inr (), fs_dirs)"
proof -
  have ns: "[''a'', ''b''] = names (dirname (dropWhile (\<lambda>c. c = CHR ''/'') ''a/b/file.bin''))"
    by (simp add: names_def dirname_def strip_trailing_def)
  have p: "list_all proper [''a'', ''b'']"
    by (simp add: proper_def NAME_MAX_def)
  have f: "dir_chain fs_file (cwd fs_file) [''a'']"
      "lookup fs_file (cwd fs_file @ [''a'', ''b'']) = Some file_inode"
      "i_kind file_inode = Regular"
    by (simp_all add: fs_file_def fs0_def is_dir_def lookup_def root_inode_def dir_inode_def
        file_inode_def)
  have d: "dir_chain fs_dirs (cwd fs_dirs) [''a'', ''b'']"
    by (simp add: fs_dirs_def fs0_def is_dir_def lookup_def root_inode_def dir_inode_def)
  from directory_conflict [OF ns, where k = 1 and s = fs_file and i = file_inode
      and buf = "''x''" and sz = 1 and mode = 420 and time = 0] p f
  have a: "\<exists>s'. save_buf ''a/b/file.bin'' ''x'' 1 420 0 fs_file = (Inl DirectoryConflict, s')
              \<and> nodes s' = nodes fs_file"
    by simp
  from directory_conflict [OF ns, where s = fs_dirs] p d
  have b: "mkdir_p_fn ''a/b/file.bin'' 511 fs_dirs = (Inr (), fs_dirs)"
    by simp
  from a b ns [symmetric] p f d show ?thesis by auto
qed

text \<open>An archive of two records, extracted into an empty file system.\<close>

lemma length_rec_boot: "length rec_boot = 259"
  by (simp add: rec_boot_def mk_header_def pad_def layout_defs)

lemma length_rec_cfg: "length rec_cfg = 258"
  by (simp add: rec_cfg_def mk_header_def pad_def layout_defs)

lemma parse_rec_boot:
  "parse_fields (rec_boot @ rest) =
     Inr \<lparr>fw_name = ''boot'', fw_size = 3, fw_mode = 493, fw_time = 77, fw_rsvd = 0,
          fw_path = ''/home/boot.bin'', fw_vers = ''V1''\<rparr>"
  by (simp add: rec_boot_def hdr_eval)

lemma parse_rec_cfg:
  "parse_fields (rec_cfg @ rest) =
     Inr \<lparr>fw_name = ''cfg'', fw_size = 2, fw_mode = 420, fw_time = 78, fw_rsvd = 0,
          fw_path = ''home/etc/cfg'', fw_vers = ''V1''\<rparr>"
  by (simp add: rec_cfg_def hdr_eval)

lemma payload_rec_boot: "drop 256 (rec_boot @ rest) = ''abc'' @ rest"
  by (simp add: rec_boot_def mk_header_def pad_def layout_defs)

lemma payload_rec_cfg: "drop 256 rec_cfg = ''xy''"
  by (simp add: rec_cfg_def mk_header_def pad_def layout_defs)

lemma well_formed_arch_two: "well_formed arch_two"
proof -
  have a: "well_formed []" by (subst well_formed.simps) simp
  have b: "well_formed rec_cfg"
    using parse_rec_cfg [of "[]"] a
    by (subst well_formed.simps) (simp add: length_rec_cfg sizeof_fwpart_256)
  have "rec_boot @ rec_cfg \<noteq> []" using length_rec_boot by auto
  then show ?thesis
    unfolding arch_two_def using b
    by (subst well_formed.simps)
      (simp add: parse_rec_boot length_rec_boot length_rec_cfg sizeof_fwpart_256)
qed

lemma length_arch_two: "length arch_two = 517"
  by (simp add: arch_two_def length_rec_boot length_rec_cfg)

lemma parse_arch_two:
  "parse_fields arch_two =
     Inr \<lparr>fw_name = ''boot'', fw_size = 3, fw_mode = 493, fw_time = 77, fw_rsvd = 0,
          fw_path = ''/home/boot.bin'', fw_vers = ''V1''\<rparr>"
  unfolding arch_two_def by (rule parse_rec_boot)

lemma parse_rec_cfg0:
  "parse_fields rec_cfg =
     Inr \<lparr>fw_name = ''cfg'', fw_size = 2, fw_mode = 420, fw_time = 78, fw_rsvd = 0,
          fw_path = ''home/etc/cfg'', fw_vers = ''V1''\<rparr>"
  using parse_rec_cfg [of "[]"] by simp

lemma payload_arch_two: "drop 256 arch_two = ''abc'' @ rec_cfg"
  unfolding arch_two_def by (rule payload_rec_boot)

lemma rest_arch_two: "drop 259 arch_two = rec_cfg"
  by (simp add: arch_two_def length_rec_boot)

lemmas run_eval = process_mem_loop.simps process_buf_def sizeof_fwpart_256 fs_eval fs0_def

lemma run_arch_two:
  "fst (process_mem_loop arch_two (of_nat (length arch_two)) fs0) = Inr ([], 0)"
  by (simp add: run_eval length_arch_two parse_arch_two payload_arch_two rest_arch_two
        length_rec_cfg parse_rec_cfg0 payload_rec_cfg
        split del: if_split cong: prod.case_cong_weak sum.case_cong_weak option.case_cong_weak
          list.case_cong_weak if_weak_cong)

theorem framing_exact_witness:
  "well_formed arch_two \<and> length arch_two < 2 ^ 64
   \<and> fst (process_mem_loop arch_two (of_nat (length arch_two)) fs0) = Inr ([], 0)
   \<and> stdout (snd (process_mem_loop arch_two (of_nat (length arch_two)) fs0)) = records_of arch_two
   \<and> sum_list (map total_length (records_of arch_two)) = length arch_two
   \<and> length arch_two = 517"
proof -
  have len: "length arch_two < 2 ^ 64" by (simp add: length_arch_two)
  have st: "stdout fs0 = []" by (simp add: fs0_def)
  from framing_exact [OF well_formed_arch_two len surjective_pairing, of fs0] run_arch_two st
  have "stdout (snd (process_mem_loop arch_two (of_nat (length arch_two)) fs0))
          = records_of arch_two
        \<and> sum_list (map total_length (records_of arch_two)) = length arch_two"
    by auto
  with well_formed_arch_two len run_arch_two length_arch_two show ?thesis by simp
qed

text \<open>
  C1, as it is stated, fails: the buffer \<^const>\<open>arch_bare\<close> is well formed (one record of
  size 3 followed by 3 bytes), but its path \<open>boot.bin\<close> has no directory part, so the
  loop stops at the assertion of line 70 and never reaches the end of the buffer.
\<close>

lemma length_arch_bare: "length arch_bare = 259"
  by (simp add: arch_bare_def mk_header_def pad_def layout_defs)

lemma parse_arch_bare:
  "parse_fields arch_bare =
     Inr \<lparr>fw_name = ''boot'', fw_size = 3, fw_mode = 420, fw_time = 0, fw_rsvd = 0,
          fw_path = ''boot.bin'', fw_vers = ''V1''\<rparr>"
  by (simp add: arch_bare_def hdr_eval)

lemma payload_arch_bare: "drop 256 arch_bare = ''abc''"
  by (simp add: arch_bare_def mk_header_def pad_def layout_defs)

theorem framing_counterexample:
  "well_formed arch_bare \<and> length arch_bare < 2 ^ 64
   \<and> fst (process_mem_loop arch_bare (of_nat (length arch_bare)) fs0) = Inl DotPath"
proof -
  have a: "well_formed []" by (subst well_formed.simps) simp
  have "arch_bare \<noteq> []" using length_arch_bare by auto
  then have wf: "well_formed arch_bare"
    using a
    by (subst well_formed.simps)
      (simp add: parse_arch_bare length_arch_bare sizeof_fwpart_256)
  have run: "fst (process_mem_loop arch_bare (of_nat (length arch_bare)) fs0) = Inl DotPath"
    by (simp add: run_eval length_arch_bare parse_arch_bare payload_arch_bare
        split del: if_split cong: prod.case_cong_weak sum.case_cong_weak option.case_cong_weak
          list.case_cong_weak if_weak_cong)
  from wf run show ?thesis by (simp add: length_arch_bare)
qed

text \<open>Directory creation, one record and a whole archive in \<open>/tmp\<close>.\<close>

theorem working_directory_restored_witness:
  "fst (mkdir_p_fn ''home/etc/cfg'' 511 fs_tmp) = Inr ()
   \<and> cwd (snd (mkdir_p_fn ''home/etc/cfg'' 511 fs_tmp)) = cwd fs_tmp
   \<and> dir_chain (snd (mkdir_p_fn ''home/etc/cfg'' 511 fs_tmp)) [''tmp''] [''home'', ''etc'']
   \<and> fst (process_buf arch_hello 267 fs_tmp) = Inr 267
   \<and> cwd (snd (process_buf arch_hello 267 fs_tmp)) = cwd fs_tmp
   \<and> fst (process_mem_loop arch_two 517 fs_tmp) = Inr ([], 0)
   \<and> cwd (snd (process_mem_loop arch_two 517 fs_tmp)) = cwd fs_tmp
   \<and> cwd fs_tmp = [''tmp'']"
proof -
  have t: "take 267 arch_hello = arch_hello" using length_arch_hello by simp
  have a: "fst (mkdir_p_fn ''home/etc/cfg'' 511 fs_tmp) = Inr ()"
    by (simp add: fs_eval fs_tmp_def fs0_def dir_inode_def
        split del: if_split cong: prod.case_cong_weak sum.case_cong_weak option.case_cong_weak
          list.case_cong_weak if_weak_cong)
  have b: "fst (process_buf arch_hello 267 fs_tmp) = Inr 267"
    by (simp add: process_buf_def t parse_arch_hello payload_arch_hello sizeof_fwpart_256
        fs_eval fs_tmp_def fs0_def dir_inode_def
        split del: if_split cong: prod.case_cong_weak sum.case_cong_weak option.case_cong_weak
          list.case_cong_weak if_weak_cong)
  have c: "fst (process_mem_loop arch_two 517 fs_tmp) = Inr ([], 0)"
    by (simp add: run_eval length_arch_two parse_arch_two payload_arch_two rest_arch_two
        length_rec_cfg parse_rec_cfg0 payload_rec_cfg fs_tmp_def dir_inode_def
        split del: if_split cong: prod.case_cong_weak sum.case_cong_weak option.case_cong_weak
          list.case_cong_weak if_weak_cong)
  have n: "names (dirname ''home/etc/cfg'') = [''home'', ''etc'']"
    by (simp add: names_def dirname_def strip_trailing_def)
  have w: "cwd fs_tmp = [''tmp'']" by (simp add: fs_tmp_def)
  from working_directory_restored [where path = "''home/etc/cfg''" and mode = 511 and s = fs_tmp
      and u = "()" and ?s1.0 = "snd (mkdir_p_fn ''home/etc/cfg'' 511 fs_tmp)"
      and buf = arch_hello and count = 267 and len = 267
      and ?s2.0 = "snd (process_buf arch_hello 267 fs_tmp)"
      and mem = arch_two and sz = 517 and r = "([], 0)"
      and ?s3.0 = "snd (process_mem_loop arch_two 517 fs_tmp)"] a b c
  have "cwd (snd (mkdir_p_fn ''home/etc/cfg'' 511 fs_tmp)) = cwd fs_tmp
      \<and> dir_chain (snd (mkdir_p_fn ''home/etc/cfg'' 511 fs_tmp)) (cwd fs_tmp)
           (names (dirname ''home/etc/cfg''))
      \<and> cwd (snd (process_buf arch_hello 267 fs_tmp)) = cwd fs_tmp
      \<and> cwd (snd (process_mem_loop arch_two 517 fs_tmp)) = cwd fs_tmp"
    by (simp add: prod_eq_iff)
  with a b c n w show ?thesis by simp
qed

end
